theory Spec2Isabelle
  imports Complex_Main "HOL-Library.Word" "HOL-Library.State_Monad"
begin

unbundle bit_operations_syntax

section \<open>The UPI QR generator (src/lib/upi/qr-generator.ts)\<close>

text \<open>
  JavaScript strings are sequences of UTF-16 code units, so a payload is a list of code
  units (\<open>nat\<close>, each below 65536).  The encoder's \<open>bits\<close> strings hold only the
  characters 0 and 1 and are HOL strings.  The two Galois field tables, created by
  \<open>new Array(256)\<close> and filled by index, are partial maps from index to value: an index
  never written reads as \<open>undefined\<close>, here \<open>None\<close>.  The other arrays are lists.  A
  function that can throw returns a sum, with the exception on the left.
\<close>

type_synonym jsstring = "nat list"

subsection \<open>Galois field tables and multiplication\<close>

text \<open>
  The body of \<open>initGaloisField\<close>: \<open>x = x * 2; if (x >= 256) x ^= 0x11d\<close> is \<open>gfNext\<close>;
  the loop writes \<open>EXP_TABLE[i] = x\<close> and \<open>LOG_TABLE[x] = i\<close> for \<open>i\<close> from 0 to 255.
\<close>

definition gfNext :: "nat \<Rightarrow> nat" where
  "gfNext x = (let x' = x * 2 in if x' \<ge> 256 then x' XOR 0x11d else x')"

function initGaloisField_loop ::
  "nat \<Rightarrow> nat \<Rightarrow> (nat \<rightharpoonup> nat) \<times> (nat \<rightharpoonup> nat) \<Rightarrow> (nat \<rightharpoonup> nat) \<times> (nat \<rightharpoonup> nat)" where
  "initGaloisField_loop i x (E, L) =
     (if i < 256 then initGaloisField_loop (i + 1) (gfNext x) (E(i \<mapsto> x), L(x \<mapsto> i))
      else (E, L))"
  by pat_completeness auto
termination
  by (relation "measure (\<lambda>(i, x, T). 256 - i)") auto

definition initGaloisField :: "(nat \<rightharpoonup> nat) \<times> (nat \<rightharpoonup> nat)" where
  "initGaloisField = initGaloisField_loop 0 1 (Map.empty, Map.empty)"

definition EXP_TABLE :: "nat \<rightharpoonup> nat" where "EXP_TABLE = fst initGaloisField"
definition LOG_TABLE :: "nat \<rightharpoonup> nat" where "LOG_TABLE = snd initGaloisField"

definition gfMul :: "nat \<Rightarrow> nat \<Rightarrow> nat option" where
  "gfMul a b =
     (if a = 0 \<or> b = 0 then Some 0
      else case (LOG_TABLE a, LOG_TABLE b) of
             (Some la, Some lb) \<Rightarrow> EXP_TABLE ((la + lb) mod 255)
           | _ \<Rightarrow> None)"

text \<open>
  Proof device, not in the source: the first \<open>n\<close> values that \<open>x\<close> takes in the loop.
\<close>

fun gfPowers :: "nat \<Rightarrow> nat \<Rightarrow> nat list" where
  "gfPowers 0 x = []"
| "gfPowers (Suc n) x = x # gfPowers n (gfNext x)"

subsection \<open>Version table and version selection\<close>

text \<open>
  Rows of \<open>VERSION_TABLE\<close>: version, totalCodewords, ecCodewordsPerBlock, group1Blocks,
  group1DataCw, group2Blocks, group2DataCw.
\<close>

type_synonym version_row = "nat \<times> nat \<times> nat \<times> nat \<times> nat \<times> nat \<times> nat"

definition VERSION_TABLE :: "version_row list" where
  "VERSION_TABLE =
    [(1, 16, 10, 1, 16, 0, 0),
     (2, 28, 16, 1, 28, 0, 0),
     (3, 44, 26, 1, 44, 0, 0),
     (4, 64, 18, 2, 32, 0, 0),
     (5, 86, 24, 2, 43, 0, 0),
     (6, 108, 16, 4, 27, 0, 0),
     (7, 124, 18, 4, 31, 0, 0),
     (8, 152, 22, 2, 38, 2, 38),
     (9, 180, 22, 3, 36, 2, 36),
     (10, 216, 26, 4, 43, 1, 43)]"

record version_info =
  version :: nat
  totalDcw :: nat
  ecCwPerBlock :: nat
  blocks :: "(nat \<times> nat) list"

text \<open>\<open>blocks.reduce((s, b) => s + b[0], 0)\<close>\<close>

definition sumDataCw :: "(nat \<times> nat) list \<Rightarrow> nat" where
  "sumDataCw bs = foldl (\<lambda>s b. s + fst b) 0 bs"

text \<open>
  The \<open>for ... of VERSION_TABLE\<close> loop of \<open>pickVersion\<close>, with its early return;
  \<open>None\<close> when the loop falls through.  The two \<open>push\<close> loops build
  \<open>g1b\<close> copies of \<open>[g1d, ecPerBlock]\<close> followed by \<open>g2b\<close> copies of \<open>[g2d, ecPerBlock]\<close>.
\<close>

fun pickVersion_loop :: "nat \<Rightarrow> version_row list \<Rightarrow> version_info option" where
  "pickVersion_loop dataLen [] = None"
| "pickVersion_loop dataLen ((ver, totalCw, ecPerBlock, g1b, g1d, g2b, g2d) # rest) =
     (let blocks = replicate g1b (g1d, ecPerBlock) @ replicate g2b (g2d, ecPerBlock);
          totalDataCw = sumDataCw blocks;
          countBits = (if ver \<le> 9 then 8 else 16);
          totalBits = 4 + countBits + dataLen * 8;
          totalDataBits = totalDataCw * 8
      in if totalBits \<le> totalDataBits
         then Some \<lparr>version = ver, totalDcw = totalCw, ecCwPerBlock = ecPerBlock, blocks = blocks\<rparr>
         else pickVersion_loop dataLen rest)"

definition pickVersion :: "nat \<Rightarrow> version_info" where
  "pickVersion dataLen =
     (case pickVersion_loop dataLen VERSION_TABLE of
        Some r \<Rightarrow> r
      | None \<Rightarrow>
          (case VERSION_TABLE ! 9 of (e0, e1, e2, e3, e4, e5, e6) \<Rightarrow>
             \<lparr>version = e0, totalDcw = e1, ecCwPerBlock = e2,
              blocks = replicate e3 (e4, e2) @ replicate e5 (e6, e2)\<rparr>))"

subsection \<open>Numbers as strings\<close>

text \<open>
  \<open>n.toString(2)\<close> for a non-negative integer, \<open>s.padStart(w, '0')\<close>, \<open>parseInt(s, 2)\<close>
  on a string of binary digits, and \<open>parseInt(c, 10)\<close> on a single decimal digit.
\<close>

fun toBinary :: "nat \<Rightarrow> string" where
  "toBinary n =
     (if n < 2 then [if n = 0 then CHR ''0'' else CHR ''1'']
      else toBinary (n div 2) @ [if n mod 2 = 0 then CHR ''0'' else CHR ''1''])"

declare toBinary.simps [simp del]

definition padStart :: "nat \<Rightarrow> string \<Rightarrow> string" where
  "padStart w s = replicate (w - length s) CHR ''0'' @ s"

definition parseInt2 :: "string \<Rightarrow> nat" where
  "parseInt2 s = foldl (\<lambda>acc c. 2 * acc + (if c = CHR ''1'' then 1 else 0)) 0 s"

definition parseInt10 :: "char \<Rightarrow> nat" where
  "parseInt10 c = of_char c - of_char CHR ''0''"

subsection \<open>Errors\<close>

text \<open>
  The exceptions the module can raise: \<open>String.prototype.repeat\<close> throws \<open>RangeError\<close> on
  a negative count, \<open>encodeURIComponent\<close> throws \<open>URIError\<close> on an unpaired surrogate,
  and \<open>btoa\<close> throws \<open>InvalidCharacterError\<close> on a code unit above 255.
\<close>

datatype error = RangeError | URIError | InvalidCharacterError

subsection \<open>Reed-Solomon\<close>

text \<open>\<open>x ^= v\<close> where \<open>v\<close> may be \<open>undefined\<close>: the bitwise operators read \<open>undefined\<close> as 0.\<close>

definition xorAssign :: "nat \<Rightarrow> nat option \<Rightarrow> nat" where
  "xorAssign x v = (case v of Some y \<Rightarrow> x XOR y | None \<Rightarrow> x)"

text \<open>
  \<open>gfMul(p, EXP_TABLE[i])\<close>: when the table entry is \<open>undefined\<close> the zero test of
  \<open>gfMul\<close> still answers for \<open>p = 0\<close>, and the lookup yields \<open>undefined\<close> otherwise.
\<close>

definition gfMulExp :: "nat \<Rightarrow> nat \<Rightarrow> nat option" where
  "gfMulExp p i =
     (case EXP_TABLE i of
        Some e \<Rightarrow> gfMul p e
      | None \<Rightarrow> if p = 0 then Some 0 else None)"

definition rsGenPoly_step :: "nat list \<Rightarrow> nat \<Rightarrow> nat list" where
  "rsGenPoly_step poly i =
     foldl (\<lambda>newPoly j.
        let newPoly1 = newPoly[j := (newPoly ! j) XOR (poly ! j)]
        in newPoly1[j + 1 := xorAssign (newPoly1 ! (j + 1)) (gfMulExp (poly ! j) i)])
       (replicate (length poly + 1) 0) [0..<length poly]"

definition rsGenPoly :: "nat \<Rightarrow> nat list" where
  "rsGenPoly ecLen = foldl rsGenPoly_step [1] [0..<ecLen]"

definition rsEncode :: "nat list \<Rightarrow> nat \<Rightarrow> nat list" where
  "rsEncode data ecLen =
     (let gen = rsGenPoly ecLen;
          msg0 = data @ replicate ecLen 0;
          msg = foldl (\<lambda>msg i.
                  let coef = msg ! i
                  in if coef \<noteq> 0
                     then foldl (\<lambda>msg j. msg[i + j := xorAssign (msg ! (i + j)) (gfMul (gen ! j) coef)])
                            msg [0..<length gen]
                     else msg)
                msg0 [0..<length data]
      in drop (length data) msg)"

subsection \<open>Bitstream encoder\<close>

text \<open>\<open>while (bits.length % 8 !== 0) bits += '0'\<close>\<close>

function padToByte :: "string \<Rightarrow> string" where
  "padToByte bits = (if length bits mod 8 \<noteq> 0 then padToByte (bits @ ''0'') else bits)"
  by pat_completeness auto
termination
proof (relation "measure (\<lambda>bits. (8 - length bits mod 8) mod 8)")
  fix bits :: string
  assume a: "length bits mod 8 \<noteq> 0"
  have "Suc (length bits) mod 8 =
        (if Suc (length bits mod 8) = 8 then 0 else Suc (length bits mod 8))"
    by (rule mod_Suc)
  moreover have "length bits mod 8 < 8" by simp
  ultimately show "(bits @ ''0'', bits) \<in> measure (\<lambda>bits. (8 - length bits mod 8) mod 8)"
    using a by (auto split: if_splits)
qed simp

text \<open>
  \<open>while (bits.length < capacity) { bits += padBytes[padIdx % 2].toString(2).padStart(8, '0'); padIdx++ }\<close>
\<close>

function padBytes_loop :: "nat \<Rightarrow> nat \<Rightarrow> string \<Rightarrow> string" where
  "padBytes_loop capacity padIdx bits =
     (if length bits < capacity
      then padBytes_loop capacity (padIdx + 1)
             (bits @ padStart 8 (toBinary ([0xec, 0x11] ! (padIdx mod 2))))
      else bits)"
  by pat_completeness auto
termination
  by (relation "measure (\<lambda>(capacity, padIdx, bits). capacity - length bits)")
     (auto simp: padStart_def)

text \<open>\<open>for (let i = 0; i < bits.length; i += 8) codewords.push(parseInt(bits.slice(i, i + 8), 2))\<close>\<close>

function toCodewords :: "nat \<Rightarrow> string \<Rightarrow> nat list" where
  "toCodewords i bits =
     (if i < length bits then parseInt2 (take 8 (drop i bits)) # toCodewords (i + 8) bits else [])"
  by pat_completeness auto
termination
  by (relation "measure (\<lambda>(i, bits). length bits - i)") auto

text \<open>The loop over \<open>blocks\<close> that slices the codewords and encodes each block.\<close>

fun splitBlocks :: "nat list \<Rightarrow> nat \<Rightarrow> (nat \<times> nat) list \<Rightarrow> nat list list \<times> nat list list" where
  "splitBlocks codewords offset [] = ([], [])"
| "splitBlocks codewords offset ((dcw, ecCw) # rest) =
     (let block = take dcw (drop offset codewords);
          (dataBlocks, ecBlocks) = splitBlocks codewords (offset + dcw) rest
      in (block # dataBlocks, rsEncode block ecCw # ecBlocks))"

text \<open>
  The bit string up to and including the payload bytes: mode indicator, character count,
  one \<open>padStart(8, '0')\<close> group per code unit.
\<close>

definition headerAndData :: "jsstring \<Rightarrow> nat \<Rightarrow> string" where
  "headerAndData data countBits =
     ''0100'' @ padStart countBits (toBinary (length data)) @
     concat (map (\<lambda>c. padStart 8 (toBinary c)) data)"

text \<open>
  \<open>encodeDataByte\<close>.  \<open>termLen = Math.min(4, capacity - bits.length)\<close> is negative when
  the bits already exceed the capacity, and \<open>'0'.repeat(termLen)\<close> then throws.
\<close>

definition encodeDataByte ::
  "jsstring \<Rightarrow> nat \<Rightarrow> (nat \<times> nat) list \<Rightarrow> error + (nat list list \<times> nat list list)" where
  "encodeDataByte data ver blks =
     (let totalDataCw = sumDataCw blks;
          countBits = (if ver \<le> 9 then 8 else 16);
          bits = headerAndData data countBits;
          capacity = totalDataCw * 8;
          termLen = min 4 (int capacity - int (length bits))
      in if termLen < 0 then Inl RangeError
         else
           let bits1 = bits @ replicate (nat termLen) CHR ''0'';
               bits2 = padToByte bits1;
               bits3 = padBytes_loop capacity 0 bits2;
               codewords = toCodewords 0 bits3
           in Inr (splitBlocks codewords 0 blks))"

subsection \<open>Interleaving\<close>

text \<open>\<open>Math.max(...lens)\<close>; on no arguments it is minus infinity and the loop does not run.\<close>

definition maxLen :: "nat list list \<Rightarrow> nat" where
  "maxLen bs = foldl max 0 (map length bs)"

definition interleaveBlocks :: "nat list list \<Rightarrow> nat list" where
  "interleaveBlocks bs =
     concat (map (\<lambda>i. concat (map (\<lambda>block. if i < length block then [block ! i] else []) bs))
               [0..<maxLen bs])"

definition interleave :: "nat list list \<Rightarrow> nat list list \<Rightarrow> nat list" where
  "interleave dataBlocks ecBlocks = interleaveBlocks dataBlocks @ interleaveBlocks ecBlocks"

declare padToByte.simps [simp del]
declare padBytes_loop.simps [simp del]
declare toCodewords.simps [simp del]
declare initGaloisField_loop.simps [simp del]

subsection \<open>Matrix builder\<close>

text \<open>
  A module matrix is an array of rows; a cell is \<open>null\<close> (\<open>None\<close>) or a number.
  \<open>setCell r c v m\<close> is the assignment \<open>m[r][c] = v\<close>.  Every assignment in this
  module is to a row and column below \<open>size\<close> (written \<open>sz\<close> here) (the finder loop checks the bounds
  itself; the other loops stay inside by their ranges), so no array is extended and no
  row is missing.
\<close>

type_synonym matrix = "nat option list list"

definition setCell :: "nat \<Rightarrow> nat \<Rightarrow> 'a \<Rightarrow> 'a list list \<Rightarrow> 'a list list" where
  "setCell r c v m = m[r := (m ! r)[c := v]]"

text \<open>
  Proof device, not in the source: a grid has \<open>sz\<close> rows of \<open>sz\<close> cells, which is what
  \<open>Array.from({ length: size }, () => new Array(size).fill(...))\<close> allocates.
\<close>

definition wfMatrix :: "nat \<Rightarrow> 'a list list \<Rightarrow> bool" where
  "wfMatrix sz m = (length m = sz \<and> list_all (\<lambda>row. length row = sz) m)"

text \<open>The body of the two nested loops of \<open>drawFinder\<close>, \<open>r\<close> and \<open>c\<close> from -1 to 7.\<close>

definition finderCell :: "nat \<Rightarrow> int \<Rightarrow> int \<Rightarrow> int \<Rightarrow> int \<Rightarrow> matrix \<Rightarrow> matrix" where
  "finderCell sz row col r c m =
     (let mr = row + r; mc = col + c
      in if mr < 0 \<or> mr \<ge> int sz \<or> mc < 0 \<or> mc \<ge> int sz then m
         else if r = -1 \<or> r = 7 \<or> c = -1 \<or> c = 7
           then setCell (nat mr) (nat mc) (Some 0) m
         else if (r = 0 \<or> r = 6) \<or> (c = 0 \<or> c = 6) \<or> (r \<ge> 2 \<and> r \<le> 4 \<and> c \<ge> 2 \<and> c \<le> 4)
           then setCell (nat mr) (nat mc) (Some 1) m
         else setCell (nat mr) (nat mc) (Some 0) m)"

definition drawFinder :: "nat \<Rightarrow> int \<Rightarrow> int \<Rightarrow> matrix \<Rightarrow> matrix" where
  "drawFinder sz row col m =
     foldl (\<lambda>m r. foldl (\<lambda>m c. finderCell sz row col r c m) m [-1..7]) m [-1..7]"

text \<open>The body of the timing loop, \<open>i\<close> from 8 to \<open>size - 9\<close>.\<close>

definition timingStep :: "nat \<Rightarrow> matrix \<Rightarrow> matrix" where
  "timingStep i m =
     (let m1 = (if m ! 6 ! i = None then setCell 6 i (Some (if i mod 2 = 0 then 1 else 0)) m else m)
      in if m1 ! i ! 6 = None then setCell i 6 (Some (if i mod 2 = 0 then 1 else 0)) m1 else m1)"

definition drawTiming :: "nat \<Rightarrow> matrix \<Rightarrow> matrix" where
  "drawTiming sz m = foldl (\<lambda>m i. timingStep i m) m [8..<sz - 8]"

definition ALIGNMENT_POSITIONS :: "nat \<rightharpoonup> nat list" where
  "ALIGNMENT_POSITIONS =
     map_of [(2, [6, 18]), (3, [6, 22]), (4, [6, 26]), (5, [6, 30]), (6, [6, 34]),
             (7, [6, 22, 38]), (8, [6, 24, 42]), (9, [6, 26, 46]), (10, [6, 28, 52])]"

definition alignmentCell :: "nat \<Rightarrow> nat \<Rightarrow> int \<Rightarrow> int \<Rightarrow> matrix \<Rightarrow> matrix" where
  "alignmentCell row col r c m =
     (let val = (if \<bar>r\<bar> = 2 \<or> \<bar>c\<bar> = 2 \<or> (r = 0 \<and> c = 0) then 1 else 0)
      in setCell (nat (int row + r)) (nat (int col + c)) (Some val) m)"

text \<open>One alignment pattern, skipped when its centre is already set.\<close>

definition drawAlignment :: "nat \<Rightarrow> nat \<Rightarrow> matrix \<Rightarrow> matrix" where
  "drawAlignment row col m =
     (if m ! row ! col \<noteq> None then m
      else foldl (\<lambda>m r. foldl (\<lambda>m c. alignmentCell row col r c m) m [-2..2]) m [-2..2])"

definition drawAlignments :: "nat \<Rightarrow> matrix \<Rightarrow> matrix" where
  "drawAlignments ver m =
     (if ver \<ge> 2 then
        (case ALIGNMENT_POSITIONS ver of
           Some positions \<Rightarrow>
             foldl (\<lambda>m row. foldl (\<lambda>m col. drawAlignment row col m) m positions) m positions
         | None \<Rightarrow> m)
      else m)"

text \<open>The body of the loop that reserves the format areas, \<open>i\<close> from 0 to 7.\<close>

definition reserveStep :: "nat \<Rightarrow> nat \<Rightarrow> matrix \<Rightarrow> matrix" where
  "reserveStep sz i m =
     (let m1 = (if m ! 8 ! i = None then setCell 8 i (Some 0) m else m);
          m2 = (if m1 ! i ! 8 = None then setCell i 8 (Some 0) m1 else m1);
          m3 = (if m2 ! 8 ! (sz - 1 - i) = None then setCell 8 (sz - 1 - i) (Some 0) m2 else m2)
      in if m3 ! (sz - 1 - i) ! 8 = None then setCell (sz - 1 - i) 8 (Some 0) m3 else m3)"

definition reserveFormat :: "nat \<Rightarrow> matrix \<Rightarrow> matrix" where
  "reserveFormat sz m =
     (let m' = foldl (\<lambda>m i. reserveStep sz i m) m [0..<8]
      in if m' ! 8 ! 8 = None then setCell 8 8 (Some 0) m' else m')"

definition createMatrix :: "nat \<Rightarrow> matrix \<times> nat" where
  "createMatrix ver =
     (let sz = ver * 4 + 17;
          m0 = replicate sz (replicate sz None);
          m1 = drawFinder sz 0 0 m0;
          m2 = drawFinder sz 0 (int sz - 7) m1;
          m3 = drawFinder sz (int sz - 7) 0 m2;
          m4 = drawTiming sz m3;
          m5 = setCell (sz - 8) 8 (Some 1) m4;
          m6 = drawAlignments ver m5;
          m7 = reserveFormat sz m6
      in (m7, sz))"

subsection \<open>Data placement\<close>

text \<open>
  The state of \<open>placeData\<close>: the matrix, \<open>bitIdx\<close>, and a trace of the cells assigned, in
  order.  The trace is not in the source; no branch reads it, and it is there so that
  "written once" can be stated.
\<close>

type_synonym place_state = "matrix \<times> nat \<times> (nat \<times> nat) list"

text \<open>The body of the innermost loop, at row \<open>row\<close> and column \<open>cc\<close>.\<close>

definition placeCell :: "string \<Rightarrow> nat \<Rightarrow> nat \<Rightarrow> place_state \<Rightarrow> place_state" where
  "placeCell bits row cc st =
     (case st of (m, bitIdx, written) \<Rightarrow>
        if m ! row ! cc \<noteq> None then st
        else (setCell row cc (Some (if bitIdx < length bits then parseInt10 (bits ! bitIdx) else 0)) m,
              bitIdx + 1, written @ [(row, cc)]))"

text \<open>
  One column pair: all rows in the scan direction, and \<open>c\<close> from 0 to 1.  \<open>col\<close> is at least
  1 inside the loop, so \<open>col - c\<close> is not negative.
\<close>

definition placeColumnPair :: "string \<Rightarrow> nat \<Rightarrow> nat \<Rightarrow> bool \<Rightarrow> place_state \<Rightarrow> place_state" where
  "placeColumnPair bits sz col upward st =
     (let rows = (if upward then map (\<lambda>i. sz - 1 - i) [0..<sz] else [0..<sz])
      in foldl (\<lambda>st row. foldl (\<lambda>st c. placeCell bits row (col - c) st) st [0..<2]) st rows)"

text \<open>
  \<open>for (let col = size - 1; col >= 1; col -= 2) { if (col === 6) col = 5; ...; upward = !upward }\<close>
\<close>

function placeColumns :: "string \<Rightarrow> nat \<Rightarrow> int \<Rightarrow> bool \<Rightarrow> place_state \<Rightarrow> place_state" where
  "placeColumns bits sz col upward st =
     (if col \<ge> 1 then
        (let col' = (if col = 6 then 5 else col)
         in placeColumns bits sz (col' - 2) (\<not> upward)
              (placeColumnPair bits sz (nat col') upward st))
      else st)"
  by pat_completeness auto
termination
  by (relation "measure (\<lambda>(bits, sz, col, upward, st). nat col)") auto

declare placeColumns.simps [simp del]

definition dataBits :: "nat list \<Rightarrow> string" where
  "dataBits data = concat (map (\<lambda>byte. padStart 8 (toBinary byte)) data)"

definition placeData :: "matrix \<Rightarrow> nat \<Rightarrow> nat list \<Rightarrow> place_state" where
  "placeData m sz data = placeColumns (dataBits data) sz (int sz - 1) True (m, 0, [])"

subsection \<open>Masking and format information\<close>

text \<open>The first pass of \<open>applyMask\<close>: \<open>result[r][c] = matrix[r][c] ?? 0\<close> on a zero-filled grid.\<close>

definition copyPass :: "matrix \<Rightarrow> nat \<Rightarrow> nat list list" where
  "copyPass m sz =
     foldl (\<lambda>res r. foldl (\<lambda>res c.
              setCell r c (case m ! r ! c of None \<Rightarrow> 0 | Some v \<Rightarrow> v) res) res [0..<sz])
       (replicate sz (replicate sz 0)) [0..<sz]"

definition maskFn :: "nat \<Rightarrow> nat \<Rightarrow> bool" where
  "maskFn r c = ((r + c) mod 2 = 0)"

text \<open>The mask pass: \<open>if (template[r][c] === null && maskFn(r, c)) result[r][c] ^= 1\<close>.\<close>

definition maskPass :: "matrix \<Rightarrow> nat \<Rightarrow> nat list list \<Rightarrow> nat list list" where
  "maskPass template sz result =
     foldl (\<lambda>res r. foldl (\<lambda>res c.
              if template ! r ! c = None \<and> maskFn r c
              then setCell r c ((res ! r ! c) XOR 1) res else res) res [0..<sz])
       result [0..<sz]"

definition formatBits :: string where
  "formatBits = ''101010000010010''"

definition hPositions :: "(nat \<times> nat) list" where
  "hPositions = [(8, 0), (8, 1), (8, 2), (8, 3), (8, 4), (8, 5), (8, 7), (8, 8)]"

definition vPositions :: "(nat \<times> nat) list" where
  "vPositions = [(7, 8), (5, 8), (4, 8), (3, 8), (2, 8), (1, 8), (0, 8)]"

text \<open>The four loops that write the format information, in the source's order.\<close>

definition writeFormat :: "nat \<Rightarrow> nat list list \<Rightarrow> nat list list" where
  "writeFormat sz result =
     (let r1 = foldl (\<lambda>res i. case hPositions ! i of (r, c) \<Rightarrow>
                        setCell r c (parseInt10 (formatBits ! i)) res) result [0..<8];
          r2 = foldl (\<lambda>res i. case vPositions ! i of (r, c) \<Rightarrow>
                        setCell r c (parseInt10 (formatBits ! (14 - i))) res) r1 [0..<7];
          r3 = foldl (\<lambda>res i. setCell 8 (sz - 1 - i) (parseInt10 (formatBits ! i)) res) r2 [0..<7]
      in foldl (\<lambda>res i. setCell (sz - 8 + i) 8 (parseInt10 (formatBits ! (14 - i))) res) r3 [0..<8])"

text \<open>
  \<open>applyMask\<close>.  The template is \<open>createMatrix(Math.floor((size - 17) / 4))\<close>; \<open>size\<close> is
  \<open>version * 4 + 17\<close> at the only call.
\<close>

definition applyMask :: "matrix \<Rightarrow> nat \<Rightarrow> nat list list" where
  "applyMask m sz =
     (let result = copyPass m sz;
          templateMatrix = createMatrix ((sz - 17) div 4)
      in writeFormat sz (maskPass (fst templateMatrix) sz result))"

definition generateQrMatrix :: "jsstring \<Rightarrow> error + nat list list" where
  "generateQrMatrix data =
     (let vi = pickVersion (length data)
      in case encodeDataByte data (version vi) (blocks vi) of
           Inl e \<Rightarrow> Inl e
         | Inr (dataBlocks, ecBlocks) \<Rightarrow>
             (let interleaved = interleave dataBlocks ecBlocks;
                  (m, sz) = createMatrix (version vi);
                  placed = fst (placeData m sz interleaved)
              in Inr (applyMask placed sz)))"

subsection \<open>UPI URI builder\<close>

text \<open>A string literal of the source as code units.\<close>

definition str :: "string \<Rightarrow> jsstring" where
  "str s = map of_char s"

text \<open>
  \<open>encodeURIComponent\<close> (ECMAScript \<open>Encode\<close> with the unreserved set of
  \<open>encodeURIComponent\<close>): letters, digits and \<open>- _ . ! ~ * ' ( )\<close> are copied; any other
  code point is written as the percent-escapes of its UTF-8 octets; an unpaired surrogate
  throws \<open>URIError\<close>.
\<close>

definition isUnreserved :: "nat \<Rightarrow> bool" where
  "isUnreserved c =
     ((65 \<le> c \<and> c \<le> 90) \<or> (97 \<le> c \<and> c \<le> 122) \<or> (48 \<le> c \<and> c \<le> 57) \<or>
      c \<in> set (str ''-_.!~*'' @ [39] @ str ''()''))"

definition utf8Octets :: "nat \<Rightarrow> nat list" where
  "utf8Octets cp =
     (if cp < 0x80 then [cp]
      else if cp < 0x800 then [0xC0 + cp div 64, 0x80 + cp mod 64]
      else if cp < 0x10000 then [0xE0 + cp div 4096, 0x80 + (cp div 64) mod 64, 0x80 + cp mod 64]
      else [0xF0 + cp div 262144, 0x80 + (cp div 4096) mod 64, 0x80 + (cp div 64) mod 64,
            0x80 + cp mod 64])"

definition hexDigit :: "nat \<Rightarrow> nat" where
  "hexDigit d = of_char (''0123456789ABCDEF'' ! d)"

definition percentOctets :: "nat list \<Rightarrow> jsstring" where
  "percentOctets octets = concat (map (\<lambda>b. [37, hexDigit (b div 16), hexDigit (b mod 16)]) octets)"

fun encodeURIComponent :: "jsstring \<Rightarrow> error + jsstring" where
  "encodeURIComponent [] = Inr []"
| "encodeURIComponent (c # rest) =
     (if isUnreserved c then
        (case encodeURIComponent rest of Inl e \<Rightarrow> Inl e | Inr t \<Rightarrow> Inr (c # t))
      else if c < 0xD800 \<or> 0xDFFF < c then
        (case encodeURIComponent rest of
           Inl e \<Rightarrow> Inl e
         | Inr t \<Rightarrow> Inr (percentOctets (utf8Octets c) @ t))
      else if 0xDC00 \<le> c then Inl URIError
      else
        (case rest of
           [] \<Rightarrow> Inl URIError
         | d # rest' \<Rightarrow>
             if 0xDC00 \<le> d \<and> d \<le> 0xDFFF then
               (case encodeURIComponent rest' of
                  Inl e \<Rightarrow> Inl e
                | Inr t \<Rightarrow>
                    Inr (percentOctets
                          (utf8Octets ((c - 0xD800) * 0x400 + (d - 0xDC00) + 0x10000)) @ t))
             else Inl URIError))"

text \<open>
  The parameter object.  An optional field that is absent is \<open>None\<close>.  \<open>amount\<close> is a
  JavaScript number; \<open>NaN\<close>, like an absent amount, fails the test
  \<open>params.amount && params.amount > 0\<close>, and is \<open>None\<close> here.  \<open>toFixed(2)\<close> formats a
  floating-point number and is a parameter of the model, \<open>toFixed2\<close>.
\<close>

record UpiQrParams =
  vpa :: jsstring
  payeeName :: "jsstring option"
  amount :: "real option"
  currency :: "jsstring option"
  note' :: "jsstring option"
  mcc :: "jsstring option"
  txnRefId :: "jsstring option"

text \<open>\<open>if (field) parts.push(`key=${encodeURIComponent(field)}`)\<close>: an empty string is falsy.\<close>

definition pushEncoded :: "string \<Rightarrow> jsstring option \<Rightarrow> jsstring list \<Rightarrow> error + jsstring list" where
  "pushEncoded key field parts =
     (case field of
        None \<Rightarrow> Inr parts
      | Some s \<Rightarrow>
          if s = [] then Inr parts
          else (case encodeURIComponent s of
                  Inl e \<Rightarrow> Inl e
                | Inr t \<Rightarrow> Inr (parts @ [str key @ t])))"

text \<open>\<open>parts.join('&')\<close>\<close>

fun joinAmp :: "jsstring list \<Rightarrow> jsstring" where
  "joinAmp [] = []"
| "joinAmp [p] = p"
| "joinAmp (p # q # ps) = p @ [38] @ joinAmp (q # ps)"

definition buildUpiUri :: "(real \<Rightarrow> jsstring) \<Rightarrow> UpiQrParams \<Rightarrow> error + jsstring" where
  "buildUpiUri toFixed2 params =
     (case encodeURIComponent (vpa params) of
        Inl e \<Rightarrow> Inl e
      | Inr pa \<Rightarrow>
     (case pushEncoded ''pn='' (payeeName params) [str ''upi://pay?pa='' @ pa] of
        Inl e \<Rightarrow> Inl e
      | Inr parts1 \<Rightarrow>
     (let parts2 = (case amount params of
                      None \<Rightarrow> parts1
                    | Some a \<Rightarrow> if a \<noteq> 0 \<and> a > 0 then parts1 @ [str ''am='' @ toFixed2 a] else parts1);
          parts3 = parts2 @ [str ''cu='' @ (case currency params of None \<Rightarrow> str ''INR'' | Some cu \<Rightarrow> cu)]
      in
     (case pushEncoded ''tn='' (note' params) parts3 of
        Inl e \<Rightarrow> Inl e
      | Inr parts4 \<Rightarrow>
     (let parts5 = (case mcc params of
                      None \<Rightarrow> parts4
                    | Some mc \<Rightarrow> if mc = [] then parts4 else parts4 @ [str ''mc='' @ mc])
      in
     (case pushEncoded ''tr='' (txnRefId params) parts5 of
        Inl e \<Rightarrow> Inl e
      | Inr parts6 \<Rightarrow> Inr (joinAmp parts6)))))))"

subsection \<open>SVG renderer and the public function\<close>

text \<open>
  A non-negative integer in a template literal.  In \<open>qrToSvg\<close> the code unit 34 is the
  double quote of the SVG attributes.
\<close>

fun toDecimal :: "nat \<Rightarrow> jsstring" where
  "toDecimal n = (if n < 10 then [48 + n] else toDecimal (n div 10) @ [48 + n mod 10])"

declare toDecimal.simps [simp del]

definition svgCell :: "nat list list \<Rightarrow> nat \<Rightarrow> nat \<Rightarrow> nat \<Rightarrow> nat \<Rightarrow> jsstring \<Rightarrow> jsstring" where
  "svgCell matrix moduleSize quietZone r c paths =
     (if matrix ! r ! c = 1 then
        (let x = (c + quietZone) * moduleSize;
             y = (r + quietZone) * moduleSize
         in paths @ str ''M'' @ toDecimal x @ str '','' @ toDecimal y @ str ''h'' @
            toDecimal moduleSize @ str ''v'' @ toDecimal moduleSize @ str ''h-'' @
            toDecimal moduleSize @ str ''z'')
      else paths)"

definition qrToSvg :: "nat list list \<Rightarrow> nat \<Rightarrow> nat \<Rightarrow> jsstring" where
  "qrToSvg matrix moduleSize quietZone =
     (let sz = length matrix;
          fullSize = (sz + quietZone * 2) * moduleSize;
          paths = foldl (\<lambda>paths r. foldl (\<lambda>paths c. svgCell matrix moduleSize quietZone r c paths)
                                        paths [0..<sz]) [] [0..<sz]
      in str ''<svg xmlns='' @ [34] @ str ''http://www.w3.org/2000/svg'' @ [34] @
         str '' viewBox='' @ [34] @ str ''0 0 '' @ toDecimal fullSize @ str '' '' @
         toDecimal fullSize @ [34] @
         str '' width='' @ [34] @ toDecimal fullSize @ [34] @
         str '' height='' @ [34] @ toDecimal fullSize @ [34] @ str ''>'' @
         str ''<rect width='' @ [34] @ toDecimal fullSize @ [34] @
         str '' height='' @ [34] @ toDecimal fullSize @ [34] @
         str '' fill='' @ [34] @ str ''white'' @ [34] @ str ''/>'' @
         str ''<path d='' @ [34] @ paths @ [34] @
         str '' fill='' @ [34] @ str ''black'' @ [34] @ str ''/>'' @
         str ''</svg>'')"

text \<open>
  Base64 of a list of octets, and the two ways the source reaches it: \<open>btoa(svg)\<close>, which
  takes each code unit as one octet and throws on a code unit above 255, and
  \<open>Buffer.from(svg).toString('base64')\<close>, which encodes the string as UTF-8 first (an
  unpaired surrogate becomes U+FFFD).
\<close>

definition base64Char :: "nat \<Rightarrow> nat" where
  "base64Char v =
     of_char (''ABCDEFGHIJKLMNOPQRSTUVWXYZabcdefghijklmnopqrstuvwxyz0123456789+/'' ! v)"

fun base64 :: "nat list \<Rightarrow> jsstring" where
  "base64 [] = []"
| "base64 [a] = [base64Char (a div 4), base64Char ((a mod 4) * 16), 61, 61]"
| "base64 [a, b] =
     [base64Char (a div 4), base64Char ((a mod 4) * 16 + b div 16), base64Char ((b mod 16) * 4), 61]"
| "base64 (a # b # c # rest) =
     [base64Char (a div 4), base64Char ((a mod 4) * 16 + b div 16),
      base64Char ((b mod 16) * 4 + c div 64), base64Char (c mod 64)] @ base64 rest"

definition btoa :: "jsstring \<Rightarrow> error + jsstring" where
  "btoa s = (if list_ex (\<lambda>c. 255 < c) s then Inl InvalidCharacterError else Inr (base64 s))"

fun utf8Bytes :: "jsstring \<Rightarrow> nat list" where
  "utf8Bytes [] = []"
| "utf8Bytes (c # rest) =
     (if c < 0xD800 \<or> 0xDFFF < c then utf8Octets c @ utf8Bytes rest
      else if 0xDC00 \<le> c then utf8Octets 0xFFFD @ utf8Bytes rest
      else
        (case rest of
           [] \<Rightarrow> utf8Octets 0xFFFD
         | d # rest' \<Rightarrow>
             if 0xDC00 \<le> d \<and> d \<le> 0xDFFF
             then utf8Octets ((c - 0xD800) * 0x400 + (d - 0xDC00) + 0x10000) @ utf8Bytes rest'
             else utf8Octets 0xFFFD @ utf8Bytes rest))"

text \<open>
  \<open>generateUpiQrCode\<close>.  \<open>hasWindow\<close> is the test \<open>typeof window !== 'undefined'\<close>, the one
  thing the function reads that is neither its argument nor a constant of the module.
\<close>

definition generateUpiQrCode :: "(real \<Rightarrow> jsstring) \<Rightarrow> bool \<Rightarrow> UpiQrParams \<Rightarrow> error + jsstring" where
  "generateUpiQrCode toFixed2 hasWindow params =
     (case buildUpiUri toFixed2 params of
        Inl e \<Rightarrow> Inl e
      | Inr uri \<Rightarrow>
          (case generateQrMatrix uri of
             Inl e \<Rightarrow> Inl e
           | Inr matrix \<Rightarrow>
               (let svg = qrToSvg matrix 4 4
                in if hasWindow then
                     (case btoa svg of
                        Inl e \<Rightarrow> Inl e
                      | Inr b \<Rightarrow> Inr (str ''data:image/svg+xml;base64,'' @ b))
                   else Inr (str ''data:image/svg+xml;base64,'' @ base64 (utf8Bytes svg)))))"

subsection \<open>UPI ID validation\<close>

text \<open>
  \<open>String.prototype.trim\<close> removes the ECMAScript white space and line terminator code
  units from both ends.
\<close>

definition isWhiteSpace :: "nat \<Rightarrow> bool" where
  "isWhiteSpace c =
     (c \<in> set [0x9, 0xA, 0xB, 0xC, 0xD, 0x20, 0xA0, 0x1680, 0x2028, 0x2029, 0x202F, 0x205F,
               0x3000, 0xFEFF] \<or> (0x2000 \<le> c \<and> c \<le> 0x200A))"

definition trim :: "jsstring \<Rightarrow> jsstring" where
  "trim s = rev (dropWhile isWhiteSpace (rev (dropWhile isWhiteSpace s)))"

text \<open>
  Regular expressions of the kind the source uses: character classes given by ranges of
  code units, sequence, and a bounded repetition \<open>{lo,hi}\<close> of a class.  \<open>Alt\<close>, \<open>Eps\<close>
  and \<open>Nul\<close> are there for the derivatives.  \<open>matches\<close> is \<open>regex.test\<close> for a pattern
  anchored by \<open>^\<close> and \<open>$\<close> (no flags: \<open>$\<close> is the end of the input).
\<close>

datatype regex =
    Nul
  | Eps
  | Cls "(nat \<times> nat) list"
  | Seq regex regex
  | Alt regex regex
  | RepCls "(nat \<times> nat) list" nat nat

definition inClass :: "nat \<Rightarrow> (nat \<times> nat) list \<Rightarrow> bool" where
  "inClass c ranges = list_ex (\<lambda>(lo, hi). lo \<le> c \<and> c \<le> hi) ranges"

fun nullable :: "regex \<Rightarrow> bool" where
  "nullable Nul = False"
| "nullable Eps = True"
| "nullable (Cls rs) = False"
| "nullable (Seq r s) = (nullable r \<and> nullable s)"
| "nullable (Alt r s) = (nullable r \<or> nullable s)"
| "nullable (RepCls rs lo hi) = (lo = 0)"

fun deriv :: "nat \<Rightarrow> regex \<Rightarrow> regex" where
  "deriv c Nul = Nul"
| "deriv c Eps = Nul"
| "deriv c (Cls rs) = (if inClass c rs then Eps else Nul)"
| "deriv c (Seq r s) =
     (if nullable r then Alt (Seq (deriv c r) s) (deriv c s) else Seq (deriv c r) s)"
| "deriv c (Alt r s) = Alt (deriv c r) (deriv c s)"
| "deriv c (RepCls rs lo hi) =
     (if inClass c rs \<and> 0 < hi then RepCls rs (lo - 1) (hi - 1) else Nul)"

fun matches :: "regex \<Rightarrow> jsstring \<Rightarrow> bool" where
  "matches r [] = nullable r"
| "matches r (c # cs) = matches (deriv c r) cs"

text \<open>\<open>/^[a-zA-Z0-9][a-zA-Z0-9._-]{0,49}@[a-zA-Z][a-zA-Z0-9]{0,49}$/\<close>\<close>

definition upiRegex :: regex where
  "upiRegex =
     Seq (Cls [(97, 122), (65, 90), (48, 57)])
       (Seq (RepCls [(97, 122), (65, 90), (48, 57), (46, 46), (95, 95), (45, 45)] 0 49)
          (Seq (Cls [(64, 64)])
             (Seq (Cls [(97, 122), (65, 90)])
                (RepCls [(97, 122), (65, 90), (48, 57)] 0 49))))"

record validation =
  valid :: bool
  message :: "jsstring option"

definition validateUpiId :: "jsstring \<Rightarrow> validation" where
  "validateUpiId upiId =
     (if upiId = [] \<or> trim upiId = []
      then \<lparr>valid = False, message = Some (str ''UPI ID is required'')\<rparr>
      else
        (let trimmed = trim upiId;
             atCount = length (filter (\<lambda>c. c = 64) trimmed)
         in if atCount \<noteq> 1
            then \<lparr>valid = False,
                  message = Some (str ''UPI ID must contain exactly one @ symbol (e.g. name@upi)'')\<rparr>
            else if \<not> matches upiRegex trimmed
            then \<lparr>valid = False,
                  message = Some (str (''Invalid UPI ID format. Expected: username@handle '' @
                                      ''(e.g. merchant@upi, john.doe@oksbi)''))\<rparr>
            else \<lparr>valid = True, message = None\<rparr>))"

subsection \<open>Module state\<close>

text \<open>
  The module keeps four arrays at top level: \<open>EXP_TABLE\<close> and \<open>LOG_TABLE\<close>, created empty
  and filled by \<open>initGaloisField\<close> when the module is loaded, and the literals
  \<open>VERSION_TABLE\<close> and \<open>ALIGNMENT_POSITIONS\<close>.  They are \<open>const\<close> bindings of mutable
  arrays, shared by every call.  In this part of the model they are the fields of a state
  that is threaded through the functions, and every access to one of them in the source
  is an operation on that state.
\<close>

record module_state =
  expTable :: "nat \<rightharpoonup> nat"
  logTable :: "nat \<rightharpoonup> nat"
  versionTable :: "version_row list"
  alignmentTable :: "nat \<rightharpoonup> nat list"

type_synonym 'a module_op = "(module_state, 'a) state"

text \<open>
  The accesses that occur in the source: \<open>EXP_TABLE[i]\<close>, \<open>LOG_TABLE[i]\<close>, the iteration over
  \<open>VERSION_TABLE\<close> and \<open>VERSION_TABLE[9]\<close>, \<open>ALIGNMENT_POSITIONS[version]\<close>, and the two
  assignments \<open>EXP_TABLE[i] = x\<close> and \<open>LOG_TABLE[x] = i\<close>.
\<close>

definition readExp :: "nat \<Rightarrow> nat option module_op" where
  "readExp i = State (\<lambda>s. (expTable s i, s))"

definition readLog :: "nat \<Rightarrow> nat option module_op" where
  "readLog i = State (\<lambda>s. (logTable s i, s))"

definition writeExp :: "nat \<Rightarrow> nat \<Rightarrow> unit module_op" where
  "writeExp i v = State (\<lambda>s. ((), s\<lparr>expTable := (expTable s)(i \<mapsto> v)\<rparr>))"

definition writeLog :: "nat \<Rightarrow> nat \<Rightarrow> unit module_op" where
  "writeLog i v = State (\<lambda>s. ((), s\<lparr>logTable := (logTable s)(i \<mapsto> v)\<rparr>))"

definition readVersionTable :: "version_row list module_op" where
  "readVersionTable = State (\<lambda>s. (versionTable s, s))"

definition readAlignment :: "nat \<Rightarrow> nat list option module_op" where
  "readAlignment ver = State (\<lambda>s. (alignmentTable s ver, s))"

text \<open>A \<open>for\<close> loop whose body accesses the module state.\<close>

fun foldM :: "('b \<Rightarrow> 'a \<Rightarrow> 'b module_op) \<Rightarrow> 'b \<Rightarrow> 'a list \<Rightarrow> 'b module_op" where
  "foldM f b [] = State_Monad.return b"
| "foldM f b (x # xs) = do { b' \<leftarrow> f b x; foldM f b' xs }"

text \<open>
  \<open>initGaloisField\<close> with its two assignments, the state when the module starts to load,
  and the state once the initialiser has run.
\<close>

definition initGaloisFieldM :: "unit module_op" where
  "initGaloisFieldM =
     do {
       _ \<leftarrow> foldM (\<lambda>x i. do { _ \<leftarrow> writeExp i x; _ \<leftarrow> writeLog x i; State_Monad.return (gfNext x) })
              1 [0..<256];
       State_Monad.return ()
     }"

definition moduleAtLoad :: module_state where
  "moduleAtLoad =
     \<lparr>expTable = Map.empty, logTable = Map.empty,
      versionTable = VERSION_TABLE, alignmentTable = ALIGNMENT_POSITIONS\<rparr>"

definition moduleLoaded :: module_state where
  "moduleLoaded = snd (run_state initGaloisFieldM moduleAtLoad)"

text \<open>
  The functions on the path of \<open>generateUpiQrCode\<close> that touch a module-level array, and
  their callers, statement by statement as in the definitions above them; the functions
  that touch none (\<open>buildUpiUri\<close>, \<open>interleave\<close>, \<open>placeData\<close>, \<open>qrToSvg\<close>, the drawing
  helpers) are used as they are.  Every array a function assigns to (\<open>newPoly\<close>, \<open>msg\<close>,
  \<open>matrix\<close>, \<open>result\<close>, the block lists) is created in the same call, by \<open>new Array\<close>,
  \<open>Array.from\<close>, a literal or \<open>slice\<close>, so it is a local value here.  The parameter object is only read
  (\<open>buildUpiUri\<close> assigns to no property of \<open>params\<close>), so it is passed as a value.
\<close>

definition gfMulM :: "nat \<Rightarrow> nat \<Rightarrow> nat option module_op" where
  "gfMulM a b =
     (if a = 0 \<or> b = 0 then State_Monad.return (Some 0)
      else do {
        la \<leftarrow> readLog a;
        lb \<leftarrow> readLog b;
        (case (la, lb) of
           (Some x, Some y) \<Rightarrow> readExp ((x + y) mod 255)
         | _ \<Rightarrow> State_Monad.return None)
      })"

definition gfMulExpM :: "nat \<Rightarrow> nat \<Rightarrow> nat option module_op" where
  "gfMulExpM p i =
     do {
       e \<leftarrow> readExp i;
       (case e of
          Some ev \<Rightarrow> gfMulM p ev
        | None \<Rightarrow> State_Monad.return (if p = 0 then Some 0 else None))
     }"

definition rsGenPoly_stepM :: "nat list \<Rightarrow> nat \<Rightarrow> nat list module_op" where
  "rsGenPoly_stepM poly i =
     foldM (\<lambda>newPoly j.
        do {
          g \<leftarrow> gfMulExpM (poly ! j) i;
          State_Monad.return
            (let newPoly1 = newPoly[j := (newPoly ! j) XOR (poly ! j)]
             in newPoly1[j + 1 := xorAssign (newPoly1 ! (j + 1)) g])
        })
       (replicate (length poly + 1) 0) [0..<length poly]"

definition rsGenPolyM :: "nat \<Rightarrow> nat list module_op" where
  "rsGenPolyM ecLen = foldM rsGenPoly_stepM [1] [0..<ecLen]"

definition rsEncodeM :: "nat list \<Rightarrow> nat \<Rightarrow> nat list module_op" where
  "rsEncodeM data ecLen =
     do {
       gen \<leftarrow> rsGenPolyM ecLen;
       msg \<leftarrow> foldM (\<lambda>msg i.
                 let coef = msg ! i
                 in if coef \<noteq> 0
                    then foldM (\<lambda>msg j.
                           do {
                             g \<leftarrow> gfMulM (gen ! j) coef;
                             State_Monad.return (msg[i + j := xorAssign (msg ! (i + j)) g])
                           }) msg [0..<length gen]
                    else State_Monad.return msg)
               (data @ replicate ecLen 0) [0..<length data];
       State_Monad.return (drop (length data) msg)
     }"

fun splitBlocksM ::
  "nat list \<Rightarrow> nat \<Rightarrow> (nat \<times> nat) list \<Rightarrow> (nat list list \<times> nat list list) module_op" where
  "splitBlocksM codewords offset [] = State_Monad.return ([], [])"
| "splitBlocksM codewords offset ((dcw, ecCw) # rest) =
     do {
       ec \<leftarrow> rsEncodeM (take dcw (drop offset codewords)) ecCw;
       r \<leftarrow> splitBlocksM codewords (offset + dcw) rest;
       State_Monad.return (take dcw (drop offset codewords) # fst r, ec # snd r)
     }"

definition encodeDataByteM ::
  "jsstring \<Rightarrow> nat \<Rightarrow> (nat \<times> nat) list \<Rightarrow> (error + (nat list list \<times> nat list list)) module_op" where
  "encodeDataByteM data ver blks =
     (let totalDataCw = sumDataCw blks;
          countBits = (if ver \<le> 9 then 8 else 16);
          bits = headerAndData data countBits;
          capacity = totalDataCw * 8;
          termLen = min 4 (int capacity - int (length bits))
      in if termLen < 0 then State_Monad.return (Inl RangeError)
         else
           let bits1 = bits @ replicate (nat termLen) CHR ''0'';
               bits2 = padToByte bits1;
               bits3 = padBytes_loop capacity 0 bits2;
               codewords = toCodewords 0 bits3
           in do { r \<leftarrow> splitBlocksM codewords 0 blks; State_Monad.return (Inr r) })"

text \<open>
  \<open>pickVersion\<close> iterates over \<open>VERSION_TABLE\<close> and, when no row fits, reads
  \<open>VERSION_TABLE[9]\<close>; the destructured row and \<open>entry\<close> are only read.
\<close>

definition pickVersionM :: "nat \<Rightarrow> version_info module_op" where
  "pickVersionM dataLen =
     do {
       table \<leftarrow> readVersionTable;
       (case pickVersion_loop dataLen table of
          Some r \<Rightarrow> State_Monad.return r
        | None \<Rightarrow>
            do {
              table' \<leftarrow> readVersionTable;
              (case table' ! 9 of (e0, e1, e2, e3, e4, e5, e6) \<Rightarrow>
                 State_Monad.return
                   \<lparr>version = e0, totalDcw = e1, ecCwPerBlock = e2,
                    blocks = replicate e3 (e4, e2) @ replicate e5 (e6, e2)\<rparr>)
            })
     }"

text \<open>
  \<open>createMatrix\<close> reads \<open>ALIGNMENT_POSITIONS[version]\<close> in the condition and again for
  \<open>positions\<close>, which aliases the stored array and is only iterated over.  The second read
  follows the first directly, so its \<open>None\<close> branch is never taken.
\<close>

definition drawAlignmentsM :: "nat \<Rightarrow> matrix \<Rightarrow> matrix module_op" where
  "drawAlignmentsM ver m =
     (if ver \<ge> 2 then
        do {
          present \<leftarrow> readAlignment ver;
          if present \<noteq> None then
            do {
              entry \<leftarrow> readAlignment ver;
              (case entry of
                 Some positions \<Rightarrow>
                   State_Monad.return
                     (foldl (\<lambda>m row. foldl (\<lambda>m col. drawAlignment row col m) m positions)
                        m positions)
               | None \<Rightarrow> State_Monad.return m)
            }
          else State_Monad.return m
        }
      else State_Monad.return m)"

definition createMatrixM :: "nat \<Rightarrow> (matrix \<times> nat) module_op" where
  "createMatrixM ver =
     (let sz = ver * 4 + 17;
          m0 = replicate sz (replicate sz None);
          m1 = drawFinder sz 0 0 m0;
          m2 = drawFinder sz 0 (int sz - 7) m1;
          m3 = drawFinder sz (int sz - 7) 0 m2;
          m4 = drawTiming sz m3;
          m5 = setCell (sz - 8) 8 (Some 1) m4
      in do {
           m6 \<leftarrow> drawAlignmentsM ver m5;
           State_Monad.return (reserveFormat sz m6, sz)
         })"

definition applyMaskM :: "matrix \<Rightarrow> nat \<Rightarrow> nat list list module_op" where
  "applyMaskM m sz =
     do {
       templateMatrix \<leftarrow> createMatrixM ((sz - 17) div 4);
       State_Monad.return (writeFormat sz (maskPass (fst templateMatrix) sz (copyPass m sz)))
     }"

definition generateQrMatrixM :: "jsstring \<Rightarrow> (error + nat list list) module_op" where
  "generateQrMatrixM data =
     do {
       vi \<leftarrow> pickVersionM (length data);
       enc \<leftarrow> encodeDataByteM data (version vi) (blocks vi);
       (case enc of
          Inl e \<Rightarrow> State_Monad.return (Inl e)
        | Inr db \<Rightarrow>
            do {
              ms \<leftarrow> createMatrixM (version vi);
              r \<leftarrow> applyMaskM (fst (placeData (fst ms) (snd ms) (interleave (fst db) (snd db)))) (snd ms);
              State_Monad.return (Inr r)
            })
     }"

definition generateUpiQrCodeM ::
  "(real \<Rightarrow> jsstring) \<Rightarrow> bool \<Rightarrow> UpiQrParams \<Rightarrow> (error + jsstring) module_op" where
  "generateUpiQrCodeM toFixed2 hasWindow params =
     (case buildUpiUri toFixed2 params of
        Inl e \<Rightarrow> State_Monad.return (Inl e)
      | Inr uri \<Rightarrow>
          do {
            r \<leftarrow> generateQrMatrixM uri;
            (case r of
               Inl e \<Rightarrow> State_Monad.return (Inl e)
             | Inr matrix \<Rightarrow>
                 (let svg = qrToSvg matrix 4 4
                  in if hasWindow then
                       (case btoa svg of
                          Inl e \<Rightarrow> State_Monad.return (Inl e)
                        | Inr b \<Rightarrow> State_Monad.return (Inr (str ''data:image/svg+xml;base64,'' @ b)))
                     else State_Monad.return
                            (Inr (str ''data:image/svg+xml;base64,'' @ base64 (utf8Bytes svg)))))
          })"

text \<open>An operation is read-only when it returns every state as it found it.\<close>

definition readOnly :: "'a module_op \<Rightarrow> bool" where
  "readOnly m = (\<forall>s. snd (run_state m s) = s)"

subsection \<open>Invariants used in the proofs\<close>

text \<open>
  Proof devices, not in the source.  \<open>binaryString\<close>: a string of the characters 0 and 1.
  \<open>placeInv sz m0 st\<close>: the state \<open>st\<close> of \<open>placeData\<close> started on the grid \<open>m0\<close> keeps
  every cell that \<open>m0\<close> sets, has written a bit into exactly the cells of its trace, all
  of them unset in \<open>m0\<close> and each once, and has left the other unset cells unset.
  \<open>placedAt\<close> adds that one given cell is set.  \<open>gridOK sz F m\<close>: \<open>m\<close> is a grid of size
  \<open>sz\<close> whose cells are unset, 0 or 1, and the cells of \<open>F\<close> are set.
\<close>

definition binaryString :: "string \<Rightarrow> bool" where
  "binaryString bits = list_all (\<lambda>ch. ch = CHR ''0'' \<or> ch = CHR ''1'') bits"

definition placeInv :: "nat \<Rightarrow> matrix \<Rightarrow> place_state \<Rightarrow> bool" where
  "placeInv sz m0 st =
     (case st of (m, bitIdx, written) \<Rightarrow>
        wfMatrix sz m \<and> distinct written \<and> bitIdx = length written \<and>
        (\<forall>r c. (r, c) \<in> set written \<longrightarrow>
           r < sz \<and> c < sz \<and> m0 ! r ! c = None \<and> (m ! r ! c = Some 0 \<or> m ! r ! c = Some 1)) \<and>
        (\<forall>r c. r < sz \<and> c < sz \<and> m0 ! r ! c \<noteq> None \<longrightarrow> m ! r ! c = m0 ! r ! c) \<and>
        (\<forall>r c. r < sz \<and> c < sz \<and> m0 ! r ! c = None \<and> (r, c) \<notin> set written \<longrightarrow>
           m ! r ! c = None))"

definition placedAt :: "nat \<Rightarrow> matrix \<Rightarrow> nat \<Rightarrow> nat \<Rightarrow> place_state \<Rightarrow> bool" where
  "placedAt sz m0 r c st = (placeInv sz m0 st \<and> fst st ! r ! c \<noteq> None)"

definition gridOK :: "nat \<Rightarrow> (nat \<times> nat) set \<Rightarrow> matrix \<Rightarrow> bool" where
  "gridOK sz F m =
     (wfMatrix sz m \<and>
      (\<forall>r c. r < sz \<and> c < sz \<longrightarrow> m ! r ! c = None \<or> m ! r ! c = Some 0 \<or> m ! r ! c = Some 1) \<and>
      (\<forall>r c. (r, c) \<in> F \<and> r < sz \<and> c < sz \<longrightarrow> m ! r ! c \<noteq> None))"

subsection \<open>The URI as the specification describes it\<close>

text \<open>
  Written from the specification's words, to be compared with \<open>buildUpiUri\<close>: the URI is
  \<open>upi://pay?\<close> followed by the fields \<open>pa\<close>, \<open>pn\<close>, \<open>am\<close>, \<open>cu\<close>, \<open>tn\<close>, \<open>mc\<close>, \<open>tr\<close> in
  this order, joined by \<open>&\<close>; the payee address and the currency are always present, the
  amount only when positive, the other fields only when not empty; a value is either
  percent-encoded or emitted as it is.  The mode of \<open>mc\<close> is a parameter: the claim has it
  percent-encoded.
\<close>

datatype emit_mode = PercentEncoded | Verbatim

definition nonEmpty :: "jsstring option \<Rightarrow> jsstring option" where
  "nonEmpty v = (case v of None \<Rightarrow> None | Some s \<Rightarrow> if s = [] then None else Some s)"

definition renderField :: "string \<times> emit_mode \<times> jsstring option \<Rightarrow> error + jsstring list" where
  "renderField f =
     (case f of (key, mode, v) \<Rightarrow>
        (case v of
           None \<Rightarrow> Inr []
         | Some s \<Rightarrow>
             (case mode of
                Verbatim \<Rightarrow> Inr [str key @ s]
              | PercentEncoded \<Rightarrow>
                  (case encodeURIComponent s of
                     Inl e \<Rightarrow> Inl e
                   | Inr t \<Rightarrow> Inr [str key @ t]))))"

fun renderAll :: "(string \<times> emit_mode \<times> jsstring option) list \<Rightarrow> error + jsstring list" where
  "renderAll [] = Inr []"
| "renderAll (f # fs) =
     (case renderField f of
        Inl e \<Rightarrow> Inl e
      | Inr ps \<Rightarrow> (case renderAll fs of Inl e \<Rightarrow> Inl e | Inr qs \<Rightarrow> Inr (ps @ qs)))"

definition uriFields ::
  "emit_mode \<Rightarrow> (real \<Rightarrow> jsstring) \<Rightarrow> UpiQrParams \<Rightarrow> (string \<times> emit_mode \<times> jsstring option) list" where
  "uriFields mccMode toFixed2 p =
     [(''pa='', PercentEncoded, Some (vpa p)),
      (''pn='', PercentEncoded, nonEmpty (payeeName p)),
      (''am='', Verbatim,
         (case amount p of None \<Rightarrow> None | Some a \<Rightarrow> if 0 < a then Some (toFixed2 a) else None)),
      (''cu='', Verbatim, Some (case currency p of None \<Rightarrow> str ''INR'' | Some cu \<Rightarrow> cu)),
      (''tn='', PercentEncoded, nonEmpty (note' p)),
      (''mc='', mccMode, nonEmpty (mcc p)),
      (''tr='', PercentEncoded, nonEmpty (txnRefId p))]"

definition uriBySpec :: "emit_mode \<Rightarrow> (real \<Rightarrow> jsstring) \<Rightarrow> UpiQrParams \<Rightarrow> error + jsstring" where
  "uriBySpec mccMode toFixed2 p =
     (case renderAll (uriFields mccMode toFixed2 p) of
        Inl e \<Rightarrow> Inl e
      | Inr parts \<Rightarrow> Inr (str ''upi://pay?'' @ joinAmp parts))"

text \<open>A parameter object whose merchant category code is one space.\<close>

definition mccExample :: UpiQrParams where
  "mccExample = \<lparr>vpa = [97], payeeName = None, amount = None, currency = None,
                  note' = None, mcc = Some [32], txnRefId = None\<rparr>"

subsection \<open>The shape of a UPI ID as the specification describes it\<close>

text \<open>
  Written from the claim's words: exactly one \<open>@\<close>; before it an alphanumeric character
  followed by up to 49 characters from letters, digits, \<open>.\<close>, \<open>_\<close>, \<open>-\<close>; after it a letter
  followed by up to 49 alphanumeric characters.  Letters and digits are the ASCII ones.
\<close>

definition isLetter :: "nat \<Rightarrow> bool" where
  "isLetter c = ((65 \<le> c \<and> c \<le> 90) \<or> (97 \<le> c \<and> c \<le> 122))"

definition isDigit :: "nat \<Rightarrow> bool" where
  "isDigit c = (48 \<le> c \<and> c \<le> 57)"

definition isAlnum :: "nat \<Rightarrow> bool" where
  "isAlnum c = (isLetter c \<or> isDigit c)"

definition isUserChar :: "nat \<Rightarrow> bool" where
  "isUserChar c = (isLetter c \<or> isDigit c \<or> c = 46 \<or> c = 95 \<or> c = 45)"

definition upiShape :: "jsstring \<Rightarrow> bool" where
  "upiShape s =
     (length (filter (\<lambda>c. c = 64) s) = 1 \<and>
      (case takeWhile (\<lambda>c. c \<noteq> 64) s of
         [] \<Rightarrow> False
       | a # u \<Rightarrow> isAlnum a \<and> length u \<le> 49 \<and> list_all isUserChar u) \<and>
      (case drop (Suc (length (takeWhile (\<lambda>c. c \<noteq> 64) s))) s of
         [] \<Rightarrow> False
       | h # t \<Rightarrow> isLetter h \<and> length t \<le> 49 \<and> list_all isAlnum t))"

text \<open>Proof devices, not in the source: the language of a regular expression, and ASCII strings.\<close>

fun lang :: "regex \<Rightarrow> jsstring set" where
  "lang Nul = {}"
| "lang Eps = {[]}"
| "lang (Cls rs) = {[c] | c. inClass c rs}"
| "lang (Seq r s) = {u @ v | u v. u \<in> lang r \<and> v \<in> lang s}"
| "lang (Alt r s) = lang r \<union> lang s"
| "lang (RepCls rs lo hi) = {w. lo \<le> length w \<and> length w \<le> hi \<and> list_all (\<lambda>c. inClass c rs) w}"

definition ascii :: "jsstring \<Rightarrow> bool" where
  "ascii s = list_all (\<lambda>c. c < 128) s"

section \<open>Properties\<close>

subsection \<open>Galois field\<close>
declare initGaloisField_loop.simps [simp del]

lemma loop_unfold:
  "i < 256 \<Longrightarrow> initGaloisField_loop i x (E, L) =
     initGaloisField_loop (i + 1) (gfNext x) (E(i \<mapsto> x), L(x \<mapsto> i))"
  by (simp add: initGaloisField_loop.simps [of i])

lemma loop_exit: "\<not> i < 256 \<Longrightarrow> initGaloisField_loop i x T = T"
  by (cases T) (simp add: initGaloisField_loop.simps [of i])

lemma loop_exp:
  "fst (initGaloisField_loop i x T) k =
     (if i \<le> k \<and> k < 256 then Some ((gfNext ^^ (k - i)) x) else fst T k)"
proof (induct i x T rule: initGaloisField_loop.induct)
  case (1 i x E L)
  show ?case
  proof (cases "i < 256")
    case True
    note IH = "1.hyps" [OF True] and unf = loop_unfold [OF True, of x E L]
    show ?thesis
    proof (cases "i + 1 \<le> k \<and> k < 256")
      case inner: True
      then have "k - i = Suc (k - (i + 1))" by arith
      then show ?thesis
        using inner unf IH by (simp add: funpow_swap1)
    next
      case False
      then show ?thesis
        using True unf IH by auto
    qed
  next
    case False
    then show ?thesis by (auto simp: loop_exit)
  qed
qed

lemma loop_log_some:
  "snd (initGaloisField_loop i x T) v = Some la \<Longrightarrow>
     (i \<le> la \<and> la < 256 \<and> (gfNext ^^ (la - i)) x = v) \<or> snd T v = Some la"
proof (induct i x T rule: initGaloisField_loop.induct)
  case (1 i x E L)
  show ?case
  proof (cases "i < 256")
    case True
    note IH = "1.hyps" [OF True] and unf = loop_unfold [OF True, of x E L]
    from "1.prems" unf IH
    consider (later) "i + 1 \<le> la" "la < 256" "(gfNext ^^ (la - (i + 1))) (gfNext x) = v"
      | (now) "(L(x \<mapsto> i)) v = Some la"
      by auto
    then show ?thesis
    proof cases
      case later
      then have "la - i = Suc (la - (i + 1))" by arith
      with later show ?thesis by (simp add: funpow_swap1)
    next
      case now
      then show ?thesis using True by (auto split: if_splits)
    qed
  next
    case False
    then show ?thesis using "1.prems" by (simp add: loop_exit)
  qed
qed

lemma loop_log_defined:
  "(snd T v \<noteq> None) \<or> (\<exists>k. i \<le> k \<and> k < 256 \<and> (gfNext ^^ (k - i)) x = v) \<Longrightarrow>
     snd (initGaloisField_loop i x T) v \<noteq> None"
proof (induct i x T rule: initGaloisField_loop.induct)
  case (1 i x E L)
  show ?case
  proof (cases "i < 256")
    case True
    note IH = "1.hyps" [OF True] and unf = loop_unfold [OF True, of x E L]
    have "(snd (E(i \<mapsto> x), L(x \<mapsto> i)) v \<noteq> None) \<or>
          (\<exists>k. i + 1 \<le> k \<and> k < 256 \<and> (gfNext ^^ (k - (i + 1))) (gfNext x) = v)"
    proof (cases "L v \<noteq> None")
      case True
      then show ?thesis by auto
    next
      case False
      with "1.prems" obtain k where k: "i \<le> k" "k < 256" "(gfNext ^^ (k - i)) x = v"
        by auto
      show ?thesis
      proof (cases "k = i")
        case True
        with k show ?thesis by simp
      next
        case False
        with k have "k - i = Suc (k - (i + 1))" "i + 1 \<le> k" by arith+
        with k show ?thesis by (auto simp: funpow_swap1)
      qed
    qed
    then show ?thesis using unf IH by simp
  next
    case False
    then show ?thesis using "1.prems" by (auto simp: loop_exit)
  qed
qed

lemma nth_gfPowers: "k < n \<Longrightarrow> gfPowers n x ! k = (gfNext ^^ k) x"
proof (induction n arbitrary: x k)
  case 0
  then show ?case by simp
next
  case (Suc n)
  then show ?case by (cases k) (simp_all add: funpow_swap1)
qed

lemma length_gfPowers: "length (gfPowers n x) = n"
  by (induction n arbitrary: x) simp_all

lemma gfPowers_unfold: "0 < n \<Longrightarrow> gfPowers n x = x # gfPowers (n - 1) (gfNext x)"
  by (cases n) simp_all

lemma gfNext_inj: "gfNext x = gfNext y \<Longrightarrow> x = y"
proof -
  define g where "g = (\<lambda>w::nat. if even w then w div 2 else (w XOR 0x11d) div 2)"
  have inv: "g (gfNext z) = z" for z
  proof (cases "z * 2 \<ge> 256")
    case True
    have "(z * 2 XOR 0x11d) XOR 0x11d = z * 2"
      by (simp add: xor.assoc)
    moreover have "odd (z * 2 XOR 0x11d)"
      by (simp add: even_xor_iff)
    ultimately show ?thesis using True by (simp add: g_def gfNext_def Let_def)
  next
    case False
    then show ?thesis by (simp add: g_def gfNext_def Let_def)
  qed
  assume "gfNext x = gfNext y"
  then have "g (gfNext x) = g (gfNext y)" by (rule arg_cong)
  then show ?thesis by (simp only: inv)
qed

lemma funpow_gfNext_inj: "(gfNext ^^ n) x = (gfNext ^^ n) y \<Longrightarrow> x = y"
  by (induction n) (auto dest: gfNext_inj)

lemma gfNext_range_all: "list_all (\<lambda>x. 0 < gfNext x \<and> gfNext x < 256) [1..<256]"
  by (simp add: gfNext_def upt_conv_Cons del: set_upt)

lemma gfNext_range: "0 < x \<Longrightarrow> x < 256 \<Longrightarrow> 0 < gfNext x \<and> gfNext x < 256"
  using gfNext_range_all by (simp add: list_all_iff)

lemma pw_range: "0 < (gfNext ^^ k) 1 \<and> (gfNext ^^ k) 1 < 256"
  by (induction k) (simp_all add: gfNext_range)

lemma pw_255: "(gfNext ^^ 255) 1 = 1"
proof -
  have "gfPowers 256 1 ! 255 = 1"
    by (simp add: gfNext_def gfPowers_unfold del: gfPowers.simps(2))
  then show ?thesis by (simp add: nth_gfPowers)
qed

lemma pw_not_one: assumes "0 < k" "k < 255" shows "(gfNext ^^ k) 1 \<noteq> 1"
proof -
  have "1 \<notin> set (gfPowers 254 2)"
    by (simp add: gfNext_def gfPowers_unfold del: gfPowers.simps(2))
  moreover have "gfPowers 254 2 ! (k - 1) = (gfNext ^^ (k - 1)) 2"
    using assms by (simp add: nth_gfPowers)
  moreover have "(gfNext ^^ (k - 1)) 2 = (gfNext ^^ k) 1"
  proof -
    have "k = Suc (k - 1)" using assms by simp
    then have "(gfNext ^^ k) 1 = (gfNext ^^ (k - 1)) (gfNext 1)"
      by (metis funpow_swap1 funpow.simps(2) comp_apply)
    then show ?thesis by (simp add: gfNext_def)
  qed
  moreover have "k - 1 < length (gfPowers 254 2)"
    using assms by (simp add: length_gfPowers)
  ultimately show ?thesis by (metis nth_mem)
qed

lemma pw_inj: "inj_on (\<lambda>k. (gfNext ^^ k) 1) {0..<255}"
proof (rule inj_onI)
  fix i j assume ij: "i \<in> {0..<255}" "j \<in> {0..<255}" and eq: "(gfNext ^^ i) 1 = (gfNext ^^ j) 1"
  have aux: "False" if "a < b" "b < 255" "(gfNext ^^ a) 1 = (gfNext ^^ b) 1" for a b
  proof -
    have "b = a + (b - a)" using that by simp
    then have "(gfNext ^^ b) 1 = (gfNext ^^ a) ((gfNext ^^ (b - a)) 1)"
      by (metis funpow_add comp_apply)
    with that have "(gfNext ^^ (b - a)) 1 = 1"
      using funpow_gfNext_inj [of a 1 "(gfNext ^^ (b - a)) 1"] by simp
    moreover have "0 < b - a" "b - a < 255" using that by simp_all
    ultimately show False using pw_not_one by blast
  qed
  show "i = j"
  proof (rule ccontr)
    assume "i \<noteq> j"
    then consider "i < j" | "j < i" by arith
    then show False using aux [of i j] aux [of j i] ij eq by cases auto
  qed
qed

lemma pw_surj: assumes "0 < a" "a < 256" shows "\<exists>k<255. (gfNext ^^ k) 1 = a"
proof -
  let ?S = "(\<lambda>k. (gfNext ^^ k) 1) ` {0..<255}"
  have "?S \<subseteq> {1..<256}" using pw_range by (auto simp: Suc_le_eq)
  moreover have "card ?S = 255" using pw_inj by (simp add: card_image)
  ultimately have "?S = {1..<256}" by (intro card_subset_eq) simp_all
  moreover have "a \<in> {1..<256}" using assms by simp
  ultimately have "a \<in> ?S" by simp
  then show ?thesis by auto
qed

lemma EXP_TABLE_val: "k < 256 \<Longrightarrow> EXP_TABLE k = Some ((gfNext ^^ k) 1)"
  by (simp add: EXP_TABLE_def initGaloisField_def loop_exp)

lemma LOG_TABLE_some: "LOG_TABLE v = Some la \<Longrightarrow> la < 256 \<and> (gfNext ^^ la) 1 = v"
  using loop_log_some [of 0 1 "(Map.empty, Map.empty)" v la]
  by (simp add: LOG_TABLE_def initGaloisField_def)

lemma LOG_TABLE_defined: assumes "0 < a" "a < 256" shows "LOG_TABLE a \<noteq> None"
proof -
  from pw_surj [OF assms] obtain k where "k < 255" "(gfNext ^^ k) 1 = a" by auto
  then have "\<exists>k. 0 \<le> k \<and> k < 256 \<and> (gfNext ^^ (k - 0)) 1 = a"
    by (intro exI [of _ k]) simp
  then show ?thesis
    using loop_log_defined [of "(Map.empty, Map.empty)" a 0 1]
    by (simp add: LOG_TABLE_def initGaloisField_def)
qed

lemma gfMul_one: assumes "0 < a" "a < 256" shows "gfMul 1 a = Some a"
proof -
  obtain l1 where l1: "LOG_TABLE 1 = Some l1"
    using LOG_TABLE_defined [of 1] by auto
  obtain la where la: "LOG_TABLE a = Some la"
    using LOG_TABLE_defined [OF assms] by auto
  from LOG_TABLE_some [OF l1] have l1': "l1 < 256" "(gfNext ^^ l1) 1 = 1" by simp_all
  from LOG_TABLE_some [OF la] have la': "la < 256" "(gfNext ^^ la) 1 = a" by simp_all
  have "l1 = 0 \<or> l1 = 255"
    using l1' pw_not_one [of l1] by (cases "l1 = 0"; cases "l1 < 255") auto
  then have idx: "(l1 + la) mod 255 = la mod 255" by auto
  have "EXP_TABLE (la mod 255) = Some a"
  proof (cases "la < 255")
    case True
    then show ?thesis using la' by (simp add: EXP_TABLE_val)
  next
    case False
    with la' have "la = 255" by simp
    with la' pw_255 have "a = 1" by simp
    with \<open>la = 255\<close> show ?thesis by (simp add: EXP_TABLE_val)
  qed
  with l1 la idx assms show ?thesis by (simp add: gfMul_def)
qed

lemma gfMul_comm: "gfMul a b = gfMul b a"
  by (auto simp: gfMul_def add.commute split: option.splits)

lemma gfMul_zero: "gfMul a 0 = Some 0 \<and> gfMul 0 a = Some 0"
  by (simp add: gfMul_def)

lemma EXP_TABLE_8: "EXP_TABLE 8 = Some 29"
proof -
  have "gfPowers 9 1 ! 8 = 29"
    by (simp add: gfNext_def gfPowers_unfold del: gfPowers.simps(2))
  then show ?thesis by (simp add: EXP_TABLE_val nth_gfPowers)
qed

text \<open>
  Claim C7.  For all \<open>a\<close>, \<open>b\<close> in \<open>[0, 255]\<close>: \<open>gfMul(a, 0) = 0\<close> and \<open>gfMul(0, a) = 0\<close>;
  \<open>gfMul(1, a) = a\<close> when \<open>a\<close> is not zero; \<open>gfMul(a, b) = gfMul(b, a)\<close>.  The tables
  are the ones the initialiser builds with the reduction constant \<open>0x11d\<close>, so the
  eighth power of the generator is \<open>0x11d - 0x100 = 29\<close>.
\<close>

theorem gfMul_laws:
  "a < 256 \<Longrightarrow> b < 256 \<Longrightarrow>
     gfMul a 0 = Some 0 \<and> gfMul 0 a = Some 0 \<and>
     (a \<noteq> 0 \<longrightarrow> gfMul 1 a = Some a) \<and>
     gfMul a b = gfMul b a \<and> EXP_TABLE 8 = Some 29"
  using gfMul_zero [of a] gfMul_one [of a] gfMul_comm [of a b] EXP_TABLE_8 by simp

theorem gfMul_laws_witness:
  "(3::nat) < 256 \<and> (7::nat) < 256 \<and> gfMul 3 0 = Some 0 \<and> gfMul 0 3 = Some 0 \<and>
   gfMul 1 3 = Some 3 \<and> gfMul 3 7 = gfMul 7 3"
  using gfMul_laws [of 3 7] by simp

subsection \<open>Version selection\<close>

lemma foldl_sum_fst:
  "foldl (\<lambda>s b. s + fst b) (s0::nat) bs = s0 + sum_list (map fst bs)"
  by (induction bs arbitrary: s0) simp_all

lemma sumDataCw_sum_list: "sumDataCw bs = sum_list (map fst bs)"
  by (simp add: sumDataCw_def foldl_sum_fst)


text \<open>
  The selection rule: the row returned by the loop has room for the payload (mode
  indicator, count field, 8 bits per byte), no row of a smaller version has, and the loop
  falls through to the fallback exactly from 213 bytes on.
\<close>

lemma pickVersion_first_fit:
  assumes "pickVersion_loop n VERSION_TABLE = Some r"
  shows "4 + (if version r \<le> 9 then 8 else 16) + n * 8 \<le> sumDataCw (blocks r) * 8 \<and>
         list_all (\<lambda>(ver, totalCw, ec, g1b, g1d, g2b, g2d).
                     version r \<le> ver \<or>
                     (g1b * g1d + g2b * g2d) * 8 < 4 + (if ver \<le> 9 then 8 else 16) + n * 8)
           VERSION_TABLE"
  using assms
  by (auto simp: VERSION_TABLE_def sumDataCw_sum_list sum_list_replicate Let_def split: if_splits)

lemma pickVersion_fallback:
  "pickVersion_loop n VERSION_TABLE = None \<longleftrightarrow> 213 \<le> n"
  by (auto simp: VERSION_TABLE_def sumDataCw_sum_list sum_list_replicate Let_def split: if_splits)



lemma pickVersion_overflow:
  "213 \<le> n \<Longrightarrow> pickVersion n =
     \<lparr>version = 10, totalDcw = 216, ecCwPerBlock = 26, blocks = replicate 4 (43, 26) @ [(43, 26)]\<rparr>"
  by (simp add: pickVersion_def VERSION_TABLE_def sumDataCw_sum_list sum_list_replicate Let_def)

lemma pickVersion_consistent_upto9:
  "version (pickVersion n) \<le> 9 \<Longrightarrow> sumDataCw (blocks (pickVersion n)) = totalDcw (pickVersion n)"
  by (simp add: pickVersion_def VERSION_TABLE_def sumDataCw_sum_list sum_list_replicate Let_def split: if_splits)

text \<open>
  Claim C3.  The claim says that the data-codeword counts of the block list add up to the
  reported \<open>totalDcw\<close> for every tabulated version and for the fallback.  At a payload of
  179 bytes the selected row is version 10: \<open>totalDcw\<close> is 216 and the five blocks of 43
  add up to 215.
\<close>

theorem pickVersion_v10_totals_differ:
  "version (pickVersion 179) = 10 \<and> totalDcw (pickVersion 179) = 216 \<and>
   sumDataCw (blocks (pickVersion 179)) = 215"
  by (simp add: pickVersion_def VERSION_TABLE_def sumDataCw_sum_list sum_list_replicate Let_def)

subsection \<open>Grids and nested loops\<close>

lemma wfMatrix_replicate: "wfMatrix sz (replicate sz (replicate sz v))"
  by (simp add: wfMatrix_def list_all_iff)

lemma wfMatrix_row: "wfMatrix sz m \<Longrightarrow> r < sz \<Longrightarrow> length (m ! r) = sz"
  by (simp add: wfMatrix_def list_all_length)

lemma wfMatrix_setCell: "wfMatrix sz m \<Longrightarrow> wfMatrix sz (setCell r c v m)"
proof -
  assume wf: "wfMatrix sz m"
  have "length (m[r := (m ! r)[c := v]] ! n) = sz" if "n < sz" for n
    using that wf by (cases "n = r") (simp_all add: wfMatrix_def list_all_length)
  with wf show ?thesis
    by (simp add: wfMatrix_def setCell_def list_all_length)
qed

lemma nth_setCell:
  "wfMatrix sz m \<Longrightarrow> r' < sz \<Longrightarrow> c' < sz \<Longrightarrow>
     setCell r c v m ! r' ! c' = (if r' = r \<and> c' = c then v else m ! r' ! c')"
  by (cases "r' = r"; cases "c' = c")
     (simp_all add: wfMatrix_def setCell_def list_all_length)

lemma inner_loop_pointwise:
  assumes step: "\<And>res r c. wfMatrix sz res \<Longrightarrow> r < sz \<Longrightarrow> c < sz \<Longrightarrow>
            wfMatrix sz (F r c res) \<and>
            (\<forall>r' < sz. \<forall>c' < sz. F r c res ! r' ! c' =
               (if r' = r \<and> c' = c then h r c (res ! r ! c) else res ! r' ! c'))"
    and "wfMatrix sz res" "r < sz" "distinct cs" "\<forall>c\<in>set cs. c < sz"
  shows "wfMatrix sz (foldl (\<lambda>res c. F r c res) res cs) \<and>
         (\<forall>r' < sz. \<forall>c' < sz. foldl (\<lambda>res c. F r c res) res cs ! r' ! c' =
            (if r' = r \<and> c' \<in> set cs then h r c' (res ! r ! c') else res ! r' ! c'))"
  using assms(2-)
proof (induction cs arbitrary: res)
  case Nil
  then show ?case by simp
next
  case (Cons c cs)
  from Cons.prems have c: "c < sz" "c \<notin> set cs" by simp_all
  note s = step [OF Cons.prems(1) Cons.prems(2) c(1)]
  have IH: "wfMatrix sz (foldl (\<lambda>res c. F r c res) (F r c res) cs) \<and>
         (\<forall>r' < sz. \<forall>c' < sz. foldl (\<lambda>res c. F r c res) (F r c res) cs ! r' ! c' =
            (if r' = r \<and> c' \<in> set cs then h r c' (F r c res ! r ! c') else F r c res ! r' ! c'))"
    using Cons.IH [of "F r c res"] s Cons.prems by simp
  show ?case
  proof (intro conjI allI impI)
    show "wfMatrix sz (foldl (\<lambda>res c. F r c res) res (c # cs))"
      using IH by simp
  next
    fix r' c' assume b: "r' < sz" "c' < sz"
    show "foldl (\<lambda>res c. F r c res) res (c # cs) ! r' ! c' =
            (if r' = r \<and> c' \<in> set (c # cs) then h r c' (res ! r ! c') else res ! r' ! c')"
      using IH s b c Cons.prems(2) by auto
  qed
qed

lemma cells_loop_pointwise:
  assumes step: "\<And>res r c. wfMatrix sz res \<Longrightarrow> r < sz \<Longrightarrow> c < sz \<Longrightarrow>
            wfMatrix sz (F r c res) \<and>
            (\<forall>r' < sz. \<forall>c' < sz. F r c res ! r' ! c' =
               (if r' = r \<and> c' = c then h r c (res ! r ! c) else res ! r' ! c'))"
    and "wfMatrix sz res" "distinct rs" "\<forall>r\<in>set rs. r < sz"
  shows "wfMatrix sz (foldl (\<lambda>res r. foldl (\<lambda>res c. F r c res) res [0..<sz]) res rs) \<and>
         (\<forall>r' < sz. \<forall>c' < sz.
            foldl (\<lambda>res r. foldl (\<lambda>res c. F r c res) res [0..<sz]) res rs ! r' ! c' =
            (if r' \<in> set rs then h r' c' (res ! r' ! c') else res ! r' ! c'))"
  using assms(2-)
proof (induction rs arbitrary: res)
  case Nil
  then show ?case by simp
next
  case (Cons r rs)
  let ?inner = "foldl (\<lambda>res c. F r c res) res [0..<sz]"
  from Cons.prems have r: "r < sz" "r \<notin> set rs" by simp_all
  have inner: "wfMatrix sz ?inner \<and>
         (\<forall>r' < sz. \<forall>c' < sz. ?inner ! r' ! c' =
            (if r' = r \<and> c' \<in> set [0..<sz] then h r c' (res ! r ! c') else res ! r' ! c'))"
    by (rule inner_loop_pointwise [OF step Cons.prems(1) r(1)]) simp_all
  have IH: "wfMatrix sz (foldl (\<lambda>res r. foldl (\<lambda>res c. F r c res) res [0..<sz]) ?inner rs) \<and>
         (\<forall>r' < sz. \<forall>c' < sz.
            foldl (\<lambda>res r. foldl (\<lambda>res c. F r c res) res [0..<sz]) ?inner rs ! r' ! c' =
            (if r' \<in> set rs then h r' c' (?inner ! r' ! c') else ?inner ! r' ! c'))"
    using Cons.IH [of ?inner] inner Cons.prems by simp
  show ?case
  proof (intro conjI allI impI)
    show "wfMatrix sz (foldl (\<lambda>res r. foldl (\<lambda>res c. F r c res) res [0..<sz]) res (r # rs))"
      using IH by simp
  next
    fix r' c' assume b: "r' < sz" "c' < sz"
    show "foldl (\<lambda>res r. foldl (\<lambda>res c. F r c res) res [0..<sz]) res (r # rs) ! r' ! c' =
            (if r' \<in> set (r # rs) then h r' c' (res ! r' ! c') else res ! r' ! c')"
      using IH inner b r by auto
  qed
qed

lemma copyPass_cells:
  "wfMatrix sz (copyPass m sz) \<and>
   (\<forall>r < sz. \<forall>c < sz. copyPass m sz ! r ! c = (case m ! r ! c of None \<Rightarrow> 0 | Some v \<Rightarrow> v))"
proof -
  have "wfMatrix sz (copyPass m sz) \<and>
      (\<forall>r' < sz. \<forall>c' < sz. copyPass m sz ! r' ! c' =
         (if r' \<in> set [0..<sz] then (\<lambda>r c old. case m ! r ! c of None \<Rightarrow> 0 | Some v \<Rightarrow> v) r' c'
               (replicate sz (replicate sz 0) ! r' ! c')
          else replicate sz (replicate sz 0) ! r' ! c'))"
    unfolding copyPass_def
    by (rule cells_loop_pointwise) (simp_all add: wfMatrix_setCell nth_setCell wfMatrix_replicate)
  then show ?thesis by simp
qed

lemma maskPass_cells:
  assumes "wfMatrix sz res"
  shows "wfMatrix sz (maskPass t sz res) \<and>
   (\<forall>r < sz. \<forall>c < sz. maskPass t sz res ! r ! c =
      (if t ! r ! c = None \<and> maskFn r c then (res ! r ! c) XOR 1 else res ! r ! c))"
proof -
  have "wfMatrix sz (maskPass t sz res) \<and>
      (\<forall>r' < sz. \<forall>c' < sz. maskPass t sz res ! r' ! c' =
         (if r' \<in> set [0..<sz]
          then (\<lambda>r c old. if t ! r ! c = None \<and> maskFn r c then old XOR 1 else old) r' c'
                 (res ! r' ! c')
          else res ! r' ! c'))"
    unfolding maskPass_def
    by (rule cells_loop_pointwise) (auto simp: wfMatrix_setCell nth_setCell assms)
  then show ?thesis by simp
qed

subsection \<open>Masking and format information\<close>

lemma foldl_preserve:
  assumes "\<And>s x. P s \<Longrightarrow> P (f s x)" "P s"
  shows "P (foldl f s xs)"
  using assms(2) by (induction xs arbitrary: s) (simp_all add: assms(1))

lemma upt_0_8: "[0..<8] = [0, 1, 2, 3, 4, 5, 6, 7]"
  by (simp add: upt_conv_Cons)

lemma writeFormat_wf: "wfMatrix sz res \<Longrightarrow> wfMatrix sz (writeFormat sz res)"
  unfolding writeFormat_def Let_def
  by (intro foldl_preserve [where P = "wfMatrix sz"]) (auto simp: wfMatrix_setCell split: prod.splits)

lemma writeFormat_dark:
  assumes "wfMatrix sz res" "8 < sz"
  shows "writeFormat sz res ! (sz - 8) ! 8 = 0"
proof -
  define r3 where "r3 = foldl (\<lambda>res i. setCell 8 (sz - 1 - i) (parseInt10 (formatBits ! i)) res)
     (foldl (\<lambda>res i. case vPositions ! i of (r, c) \<Rightarrow>
                        setCell r c (parseInt10 (formatBits ! (14 - i))) res)
        (foldl (\<lambda>res i. case hPositions ! i of (r, c) \<Rightarrow>
                        setCell r c (parseInt10 (formatBits ! i)) res) res [0..<8]) [0..<7]) [0..<7]"
  have wf3: "wfMatrix sz r3"
    unfolding r3_def
    by (intro foldl_preserve [where P = "wfMatrix sz"])
       (auto simp: wfMatrix_setCell assms split: prod.splits)
  have "writeFormat sz res =
        foldl (\<lambda>res i. setCell (sz - 8 + i) 8 (parseInt10 (formatBits ! (14 - i))) res) r3 [0..<8]"
    by (simp add: writeFormat_def r3_def Let_def)
  then show ?thesis
    using wf3 assms(2)
    by (simp add: upt_0_8 nth_setCell [where sz = sz] wfMatrix_setCell formatBits_def
          parseInt10_def)
qed

lemma applyMask_dark: "8 < sz \<Longrightarrow> applyMask m sz ! (sz - 8) ! 8 = 0"
  unfolding applyMask_def Let_def
  by (intro writeFormat_dark) (simp_all add: maskPass_cells copyPass_cells)

lemma encodeDataByte_cases:
  "encodeDataByte data ver blks = Inl RangeError \<or> (\<exists>d e. encodeDataByte data ver blks = Inr (d, e))"
  by (cases "splitBlocks (toCodewords 0 (padBytes_loop (sumDataCw blks * 8) 0 (padToByte
        (headerAndData data (if ver \<le> 9 then 8 else 16) @
         replicate (nat (min 4 (int (sumDataCw blks * 8) -
           int (length (headerAndData data (if ver \<le> 9 then 8 else 16)))))) CHR ''0'')))) 0 blks")
     (simp add: encodeDataByte_def Let_def)

lemma toBinary_1: "toBinary (Suc 0) = ''1''"
  by (simp add: toBinary.simps)

lemma toBinary_97: "toBinary 97 = ''1100001''"
  by (simp add: toBinary.simps)

lemma encode_a: "\<exists>d e. encodeDataByte [97] (Suc 0) [(16, 10)] = Inr (d, e)"
proof -
  have "length (headerAndData [97] 8) = 20"
    by (simp add: headerAndData_def padStart_def toBinary_1 toBinary_97)
  then have "encodeDataByte [97] (Suc 0) [(16, 10)] \<noteq> Inl RangeError"
    by (simp add: encodeDataByte_def Let_def sumDataCw_def)
  then show ?thesis using encodeDataByte_cases [of "[97]" "Suc 0" "[(16, 10)]"] by simp
qed

lemma pickVersion_1: "pickVersion (Suc 0) = \<lparr>version = Suc 0, totalDcw = 16, ecCwPerBlock = 10, blocks = [(16, 10)]\<rparr>"
  by (simp add: pickVersion_def VERSION_TABLE_def sumDataCw_def Let_def)

text \<open>
  Claim C2.  The claim says that the dark module, row \<open>size - 8\<close> and column 8, is 1 in
  the matrix that \<open>generateQrMatrix\<close> returns.  The last loop of \<open>applyMask\<close> writes
  \<open>result[size - 8 + i][8] = formatBits[14 - i]\<close> from \<open>i = 0\<close>, and \<open>formatBits[14]\<close> is
  0: whenever a matrix is returned, the cell is 0.
\<close>

theorem generateQrMatrix_dark_module_cleared:
  "generateQrMatrix data = Inl RangeError \<or>
   (\<exists>m. generateQrMatrix data = Inr m \<and>
        m ! (version (pickVersion (length data)) * 4 + 17 - 8) ! 8 = 0)"
proof -
  let ?vi = "pickVersion (length data)"
  from encodeDataByte_cases [of data "version ?vi" "blocks ?vi"]
  show ?thesis
  proof
    assume "encodeDataByte data (version ?vi) (blocks ?vi) = Inl RangeError"
    then show ?thesis by (simp add: generateQrMatrix_def Let_def)
  next
    assume "\<exists>d e. encodeDataByte data (version ?vi) (blocks ?vi) = Inr (d, e)"
    then obtain d e where "encodeDataByte data (version ?vi) (blocks ?vi) = Inr (d, e)" by auto
    then obtain placed where
      "generateQrMatrix data = Inr (applyMask placed (version ?vi * 4 + 17))"
      by (simp add: generateQrMatrix_def Let_def createMatrix_def)
    moreover have "applyMask placed (version ?vi * 4 + 17) ! (version ?vi * 4 + 17 - 8) ! 8 = 0"
      by (rule applyMask_dark) simp
    ultimately show ?thesis by simp
  qed
qed

text \<open>The payload \<open>a\<close> (one code unit, 97) is encoded as version 1, size 21.\<close>

theorem generateQrMatrix_dark_module_cleared_witness:
  "\<exists>m. generateQrMatrix [97] = Inr m \<and> m ! 13 ! 8 = 0"
proof -
  have "generateQrMatrix [97] \<noteq> Inl RangeError"
    using encode_a by (auto simp: generateQrMatrix_def pickVersion_1 Let_def split: prod.splits)
  then show ?thesis
    using generateQrMatrix_dark_module_cleared [of "[97]"] by (simp add: pickVersion_1)
qed

text \<open>
  Claim C5.  In \<open>applyMask\<close>, for a grid of the version's size, the mask pass changes a
  cell only where the rebuilt template is unset and \<open>(row + col) mod 2 = 0\<close>, and there it
  flips the bit; every cell the template fixes holds after the pass the value it held
  before it, which is the input's value (\<open>null\<close> read as 0).
\<close>

theorem maskPass_flips_only_data_cells:
  assumes "sz = ver * 4 + 17" "wfMatrix sz m" "r < sz" "c < sz"
  shows "applyMask m sz = writeFormat sz (maskPass (fst (createMatrix ver)) sz (copyPass m sz)) \<and>
         copyPass m sz ! r ! c = (case m ! r ! c of None \<Rightarrow> 0 | Some v \<Rightarrow> v) \<and>
         maskPass (fst (createMatrix ver)) sz (copyPass m sz) ! r ! c =
           (if fst (createMatrix ver) ! r ! c = None \<and> (r + c) mod 2 = 0
            then (copyPass m sz ! r ! c) XOR 1 else copyPass m sz ! r ! c)"
  using assms maskPass_cells [of sz "copyPass m sz" "fst (createMatrix ver)"] copyPass_cells [of sz m]
  by (simp add: applyMask_def Let_def maskFn_def)

theorem maskPass_flips_only_data_cells_witness:
  "(21::nat) = 1 * 4 + 17 \<and> wfMatrix 21 (replicate 21 (replicate 21 (Some (1::nat)))) \<and>
   (10::nat) < 21 \<and>
   maskPass (fst (createMatrix 1)) 21 (copyPass (replicate 21 (replicate 21 (Some 1))) 21) ! 10 ! 10 =
     (if fst (createMatrix 1) ! 10 ! 10 = None \<and> (10 + 10) mod 2 = (0::nat)
      then (copyPass (replicate 21 (replicate 21 (Some 1))) 21 ! 10 ! 10) XOR 1
      else copyPass (replicate 21 (replicate 21 (Some 1))) 21 ! 10 ! 10)"
  using maskPass_flips_only_data_cells [of 21 1 "replicate 21 (replicate 21 (Some 1))" 10 10]
    wfMatrix_replicate [of 21 "Some (1::nat)"]
  by simp

subsection \<open>Capacity overflow\<close>

lemma length_padStart: "length (padStart w s) = max w (length s)"
  by (simp add: padStart_def)

lemma length_concat_padStart:
  "8 * length data \<le> length (concat (map (\<lambda>c. padStart 8 (toBinary c)) data))"
  by (induction data) (simp_all add: length_padStart)

lemma headerAndData_length_ge:
  "4 + countBits + 8 * length data \<le> length (headerAndData data countBits)"
  using length_concat_padStart [of data]
  by (simp add: headerAndData_def length_padStart)

lemma encodeDataByte_overflow:
  assumes "sumDataCw blks * 8 < 4 + (if ver \<le> 9 then 8 else 16) + 8 * length data"
  shows "encodeDataByte data ver blks = Inl RangeError"
proof -
  have "int (sumDataCw blks * 8) - int (length (headerAndData data (if ver \<le> 9 then 8 else 16))) < 0"
    using assms headerAndData_length_ge [of "if ver \<le> 9 then 8 else 16" data] by simp
  then show ?thesis by (simp add: encodeDataByte_def Let_def)
qed

lemma generateQrMatrix_overflow:
  assumes "213 \<le> length data"
  shows "generateQrMatrix data = Inl RangeError"
proof -
  have "encodeDataByte data 10 (replicate 4 (43, 26) @ [(43, 26)]) = Inl RangeError"
    using assms by (intro encodeDataByte_overflow) (simp add: sumDataCw_sum_list sum_list_replicate)
  then show ?thesis
    using assms by (simp add: generateQrMatrix_def pickVersion_overflow Let_def)
qed

lemma encodeURIComponent_unreserved:
  "list_all isUnreserved s \<Longrightarrow> encodeURIComponent s = Inr s"
  by (induction s) simp_all

text \<open>
  Claim C1.  The claim says that a payload too long for version 10 still yields a data
  URI.  \<open>pickVersion\<close> falls back to version 10 from 213 code units on; the bit string is
  then longer than the capacity of 1720 bits, \<open>termLen\<close> is negative, and
  \<open>'0'.repeat(termLen)\<close> throws \<open>RangeError\<close>: every such call ends in the exception.
\<close>

theorem generateUpiQrCode_overflow_throws:
  "buildUpiUri toFixed2 params = Inr uri \<Longrightarrow> 213 \<le> length uri \<Longrightarrow>
     generateUpiQrCode toFixed2 hasWindow params = Inl RangeError"
  by (simp add: generateUpiQrCode_def generateQrMatrix_overflow)

lemma isUnreserved_a: "isUnreserved 97"
  by (simp add: isUnreserved_def)

lemma buildUpiUri_long_vpa:
  "buildUpiUri (\<lambda>a. []) \<lparr>vpa = replicate 193 97, payeeName = None, amount = None,
       currency = None, note' = None, mcc = None, txnRefId = None\<rparr> =
     Inr (str ''upi://pay?pa='' @ replicate 193 97 @ [38] @ str ''cu=INR'')"
proof -
  have "encodeURIComponent (replicate 193 97) = Inr (replicate 193 97)"
    by (rule encodeURIComponent_unreserved) (simp add: list_all_iff isUnreserved_a)
  then show ?thesis
    by (simp add: buildUpiUri_def pushEncoded_def Let_def str_def)
qed

theorem generateUpiQrCode_overflow_throws_witness:
  "buildUpiUri (\<lambda>a. []) \<lparr>vpa = replicate 193 97, payeeName = None, amount = None,
       currency = None, note' = None, mcc = None, txnRefId = None\<rparr> =
     Inr (str ''upi://pay?pa='' @ replicate 193 97 @ [38] @ str ''cu=INR'') \<and>
   length (str ''upi://pay?pa='' @ replicate 193 97 @ [38] @ str ''cu=INR'') = 213 \<and>
   generateUpiQrCode (\<lambda>a. []) True \<lparr>vpa = replicate 193 97, payeeName = None, amount = None,
       currency = None, note' = None, mcc = None, txnRefId = None\<rparr> = Inl RangeError"
proof -
  have len: "length (str ''upi://pay?pa='' @ replicate 193 97 @ [38] @ str ''cu=INR'') = 213"
    by (simp add: str_def)
  then have "213 \<le> length (str ''upi://pay?pa='' @ replicate 193 97 @ [38] @ str ''cu=INR'')"
    by simp
  from generateUpiQrCode_overflow_throws [OF buildUpiUri_long_vpa this, of True]
  show ?thesis using buildUpiUri_long_vpa len by simp
qed

subsection \<open>Data placement\<close>

lemma foldl_preserve_set:
  assumes "\<And>s x. P s \<Longrightarrow> x \<in> set xs \<Longrightarrow> P (f s x)" "P s"
  shows "P (foldl f s xs)"
  using assms by (induction xs arbitrary: s) simp_all

lemma foldl_establish:
  assumes "x0 \<in> set xs"
    and "\<And>s x. P s \<Longrightarrow> x \<in> set xs \<Longrightarrow> P (f s x)"
    and "\<And>s x. P' s \<Longrightarrow> x \<in> set xs \<Longrightarrow> P' (f s x)"
    and "\<And>s. P s \<Longrightarrow> P' (f s x0)"
    and "P s"
  shows "P' (foldl f s xs)"
  using assms
proof (induction xs arbitrary: s)
  case Nil
  then show ?case by simp
next
  case (Cons x xs)
  show ?case
  proof (cases "x = x0")
    case True
    have "P' (f s x)" using Cons.prems(4,5) True by simp
    then have "P' (foldl f (f s x) xs)"
      using Cons.prems(3) by (intro foldl_preserve_set [where P = P']) simp_all
    then show ?thesis by simp
  next
    case False
    with Cons.prems(1) have "x0 \<in> set xs" by simp
    moreover have "P (f s x)" using Cons.prems(2,5) by simp
    ultimately have "P' (foldl f (f s x) xs)"
      using Cons.prems(2,3,4) by (intro Cons.IH) simp_all
    then show ?thesis by simp
  qed
qed

lemma parseInt10_bit: "ch = CHR ''0'' \<or> ch = CHR ''1'' \<Longrightarrow> parseInt10 ch = 0 \<or> parseInt10 ch = 1"
  by (auto simp: parseInt10_def)

lemma placeCell_inv:
  assumes "placeInv sz m0 st" "row < sz" "cc < sz" "binaryString bits"
  shows "placeInv sz m0 (placeCell bits row cc st)"
proof -
  obtain m bitIdx written where st: "st = (m, bitIdx, written)" by (cases st)
  from assms(1) have wf: "wfMatrix sz m" and dist: "distinct written"
    and idx: "bitIdx = length written"
    and wr: "\<And>r c. (r, c) \<in> set written \<Longrightarrow>
           r < sz \<and> c < sz \<and> m0 ! r ! c = None \<and> (m ! r ! c = Some 0 \<or> m ! r ! c = Some 1)"
    and fixed: "\<And>r c. r < sz \<Longrightarrow> c < sz \<Longrightarrow> m0 ! r ! c \<noteq> None \<Longrightarrow> m ! r ! c = m0 ! r ! c"
    and unset: "\<And>r c. r < sz \<Longrightarrow> c < sz \<Longrightarrow> m0 ! r ! c = None \<Longrightarrow> (r, c) \<notin> set written \<Longrightarrow>
           m ! r ! c = None"
    by (simp_all add: placeInv_def st)
  show ?thesis
  proof (cases "m ! row ! cc \<noteq> None")
    case True
    then show ?thesis using assms(1) by (simp add: placeCell_def st)
  next
    case False
    then have none: "m ! row ! cc = None" by simp
    define v where "v = (if bitIdx < length bits then parseInt10 (bits ! bitIdx) else 0)"
    have v: "v = 0 \<or> v = 1"
    proof (cases "bitIdx < length bits")
      case True
      with assms(4) have "bits ! bitIdx = CHR ''0'' \<or> bits ! bitIdx = CHR ''1''"
        by (simp add: binaryString_def list_all_length)
      then show ?thesis using True parseInt10_bit by (simp add: v_def)
    next
      case False
      then show ?thesis by (simp add: v_def)
    qed
    let ?m' = "setCell row cc (Some v) m"
    have new: "placeCell bits row cc st = (?m', bitIdx + 1, written @ [(row, cc)])"
      using none by (simp add: placeCell_def st v_def)
    have orig: "m0 ! row ! cc = None"
      using fixed [OF assms(2,3)] none by (cases "m0 ! row ! cc") simp_all
    have fresh: "(row, cc) \<notin> set written"
      using wr [of row cc] none by auto
    have cells: "?m' ! r ! c = (if r = row \<and> c = cc then Some v else m ! r ! c)"
      if "r < sz" "c < sz" for r c
      using that wf by (simp add: nth_setCell [where sz = sz])
    have c1: "wfMatrix sz ?m'" by (rule wfMatrix_setCell [OF wf])
    have c2: "distinct (written @ [(row, cc)])" using dist fresh by simp
    have c3: "bitIdx + 1 = length (written @ [(row, cc)])" using idx by simp
    have c4: "r < sz \<and> c < sz \<and> m0 ! r ! c = None \<and> (?m' ! r ! c = Some 0 \<or> ?m' ! r ! c = Some 1)"
      if "(r, c) \<in> set (written @ [(row, cc)])" for r c
    proof (cases "(r, c) = (row, cc)")
      case True
      then show ?thesis using assms(2,3) orig v cells [of row cc] by auto
    next
      case False
      with that have "(r, c) \<in> set written" by auto
      from wr [OF this] False show ?thesis using cells [of r c] by auto
    qed
    have c5: "?m' ! r ! c = m0 ! r ! c" if "r < sz" "c < sz" "m0 ! r ! c \<noteq> None" for r c
    proof -
      have "(r, c) \<noteq> (row, cc)" using that(3) orig by auto
      then show ?thesis using cells [OF that(1,2)] fixed [OF that] by auto
    qed
    have c6: "?m' ! r ! c = None"
      if "r < sz" "c < sz" "m0 ! r ! c = None" "(r, c) \<notin> set (written @ [(row, cc)])" for r c
    proof -
      from that(4) have "(r, c) \<noteq> (row, cc)" "(r, c) \<notin> set written" by simp_all
      then show ?thesis using cells [OF that(1,2)] unset [OF that(1-3)] by auto
    qed
    show ?thesis
      unfolding new placeInv_def prod.case
      using c1 c2 c3 c4 c5 c6 by blast
  qed
qed

lemma placeCell_sets:
  assumes "placeInv sz m0 st" "row < sz" "cc < sz"
  shows "fst (placeCell bits row cc st) ! row ! cc \<noteq> None"
proof -
  obtain m bitIdx written where st: "st = (m, bitIdx, written)" by (cases st)
  from assms(1) have wf: "wfMatrix sz m" by (simp add: placeInv_def st)
  show ?thesis
    using assms(2,3) wf by (simp add: placeCell_def st nth_setCell [where sz = sz])
qed

lemma placeCell_keeps:
  assumes "placeInv sz m0 st" "r < sz" "c < sz" "fst st ! r ! c \<noteq> None"
  shows "fst (placeCell bits row cc st) ! r ! c \<noteq> None"
proof -
  obtain m bitIdx written where st: "st = (m, bitIdx, written)" by (cases st)
  from assms(1) have wf: "wfMatrix sz m" by (simp add: placeInv_def st)
  show ?thesis
    using assms(2-) wf by (simp add: placeCell_def st nth_setCell [where sz = sz])
qed

lemma rows_bound:
  "row \<in> set (if upward then map (\<lambda>i. sz - 1 - i) [0..<sz] else [0..<sz]) \<Longrightarrow> row < sz"
  by (auto split: if_splits)

lemma rows_all:
  assumes "r < sz"
  shows "r \<in> set (if upward then map (\<lambda>i. sz - 1 - i) [0..<sz] else [0..<sz])"
proof (cases upward)
  case True
  have "r = sz - 1 - (sz - 1 - r)" "sz - 1 - r < sz" using assms by simp_all
  then have "r \<in> (\<lambda>i. sz - 1 - i) ` {0..<sz}" by (intro image_eqI [where x = "sz - 1 - r"]) simp_all
  with True show ?thesis by simp
next
  case False
  with assms show ?thesis by simp
qed

lemma placeColumnPair_inv:
  assumes "placeInv sz m0 st" "1 \<le> col" "col < sz" "binaryString bits"
  shows "placeInv sz m0 (placeColumnPair bits sz col upward st)"
  unfolding placeColumnPair_def Let_def
proof (rule foldl_preserve_set [where P = "placeInv sz m0"])
  fix s row
  assume s: "placeInv sz m0 s"
    and "row \<in> set (if upward then map (\<lambda>i. sz - 1 - i) [0..<sz] else [0..<sz])"
  then have row: "row < sz" by (rule_tac rows_bound)
  show "placeInv sz m0 (foldl (\<lambda>st c. placeCell bits row (col - c) st) s [0..<2])"
  proof (rule foldl_preserve_set [where P = "placeInv sz m0"])
    fix t c assume "placeInv sz m0 t"
    then show "placeInv sz m0 (placeCell bits row (col - c) t)"
      using row assms(3,4) by (intro placeCell_inv) simp_all
  qed (rule s)
qed (rule assms(1))

lemma placeColumnPair_keeps:
  assumes "placedAt sz m0 r c st" "r < sz" "c < sz" "1 \<le> col" "col < sz" "binaryString bits"
  shows "placedAt sz m0 r c (placeColumnPair bits sz col upward st)"
  unfolding placeColumnPair_def Let_def
proof (rule foldl_preserve_set [where P = "placedAt sz m0 r c"])
  fix s row
  assume s: "placedAt sz m0 r c s"
    and "row \<in> set (if upward then map (\<lambda>i. sz - 1 - i) [0..<sz] else [0..<sz])"
  then have row: "row < sz" by (rule_tac rows_bound)
  show "placedAt sz m0 r c (foldl (\<lambda>st c. placeCell bits row (col - c) st) s [0..<2])"
  proof (rule foldl_preserve_set [where P = "placedAt sz m0 r c"])
    fix t c' assume "placedAt sz m0 r c t"
    then show "placedAt sz m0 r c (placeCell bits row (col - c') t)"
      using row assms(2,3,5,6) unfolding placedAt_def
      by (intro conjI placeCell_inv placeCell_keeps [where sz = sz and ?m0.0 = m0]) simp_all
  qed (rule s)
qed (rule assms(1))

lemma placeColumnPair_covers:
  assumes "placeInv sz m0 st" "r < sz" "1 \<le> col" "col < sz" "binaryString bits"
    and cc: "cc = col \<or> cc = col - 1"
  shows "placedAt sz m0 r cc (placeColumnPair bits sz col upward st)"
  unfolding placeColumnPair_def Let_def
proof (rule foldl_establish [where P = "placeInv sz m0" and P' = "placedAt sz m0 r cc" and ?x0.0 = r])
  show "r \<in> set (if upward then map (\<lambda>i. sz - 1 - i) [0..<sz] else [0..<sz])"
    using assms(2) by (rule rows_all)
next
  fix s row
  assume "placeInv sz m0 s"
    and "row \<in> set (if upward then map (\<lambda>i. sz - 1 - i) [0..<sz] else [0..<sz])"
  then show "placeInv sz m0 (foldl (\<lambda>st c. placeCell bits row (col - c) st) s [0..<2])"
    using assms(4,5) rows_bound [of row upward sz]
    by (intro foldl_preserve_set [where P = "placeInv sz m0"] placeCell_inv) simp_all
next
  fix s row
  assume s: "placedAt sz m0 r cc s"
    and "row \<in> set (if upward then map (\<lambda>i. sz - 1 - i) [0..<sz] else [0..<sz])"
  then have row: "row < sz" by (rule_tac rows_bound)
  have cc': "cc < sz" using cc assms(4) by auto
  show "placedAt sz m0 r cc (foldl (\<lambda>st c. placeCell bits row (col - c) st) s [0..<2])"
  proof (rule foldl_preserve_set [where P = "placedAt sz m0 r cc"])
    fix t c' assume "placedAt sz m0 r cc t"
    then show "placedAt sz m0 r cc (placeCell bits row (col - c') t)"
      using row assms(2,4,5) cc' unfolding placedAt_def
      by (intro conjI placeCell_inv placeCell_keeps [where sz = sz and ?m0.0 = m0]) simp_all
  qed (rule s)
next
  fix s assume s: "placeInv sz m0 s"
  have cc': "cc < sz" using cc assms(4) by auto
  obtain c0 where c0: "c0 \<in> set [0..<2]" "cc = col - c0"
    using cc by (cases "cc = col") (auto intro: that [of 0] that [of 1])
  show "placedAt sz m0 r cc (foldl (\<lambda>st c. placeCell bits r (col - c) st) s [0..<2])"
  proof (rule foldl_establish [where P = "placeInv sz m0" and P' = "placedAt sz m0 r cc" and ?x0.0 = c0])
    show "c0 \<in> set [0..<2]" by (rule c0(1))
  next
    fix t c' assume "placeInv sz m0 t"
    then show "placeInv sz m0 (placeCell bits r (col - c') t)"
      using assms(2,4,5) by (intro placeCell_inv) simp_all
  next
    fix t c' assume "placedAt sz m0 r cc t"
    then show "placedAt sz m0 r cc (placeCell bits r (col - c') t)"
      using assms(2,4,5) cc' unfolding placedAt_def
      by (intro conjI placeCell_inv placeCell_keeps [where sz = sz and ?m0.0 = m0]) simp_all
  next
    fix t assume t: "placeInv sz m0 t"
    have "fst (placeCell bits r cc t) ! r ! cc \<noteq> None"
      using t assms(2) cc' by (rule placeCell_sets)
    moreover have "placeInv sz m0 (placeCell bits r cc t)"
      using t assms(2) cc' assms(5) by (rule placeCell_inv)
    ultimately show "placedAt sz m0 r cc (placeCell bits r (col - c0) t)"
      using c0(2) by (simp add: placedAt_def)
  qed (rule s)
qed (rule assms(1))

lemma placeColumns_step:
  "1 \<le> col \<Longrightarrow> placeColumns bits sz col upward st =
     placeColumns bits sz ((if col = 6 then 5 else col) - 2) (\<not> upward)
       (placeColumnPair bits sz (nat (if col = 6 then 5 else col)) upward st)"
  by (simp add: placeColumns.simps [of bits sz col] Let_def)

lemma placeColumns_stop: "\<not> 1 \<le> col \<Longrightarrow> placeColumns bits sz col upward st = st"
  by (simp add: placeColumns.simps [of bits sz col])

lemma placeColumns_inv:
  "placeInv sz m0 st \<Longrightarrow> col < int sz \<Longrightarrow> binaryString bits \<Longrightarrow>
     placeInv sz m0 (placeColumns bits sz col upward st)"
proof (induct bits sz col upward st rule: placeColumns.induct)
  case (1 bits sz col upward st)
  show ?case
  proof (cases "1 \<le> col")
    case True
    define col' where "col' = (if col = 6 then 5 else col)"
    have b: "1 \<le> nat col'" "nat col' < sz" "col' - 2 < int sz"
      using True "1.prems"(2) by (auto simp: col'_def)
    have "placeInv sz m0 (placeColumnPair bits sz (nat col') upward st)"
      using "1.prems"(1) b(1,2) "1.prems"(3) by (rule placeColumnPair_inv)
    then have "placeInv sz m0 (placeColumns bits sz (col' - 2) (\<not> upward)
          (placeColumnPair bits sz (nat col') upward st))"
      using "1.hyps" [OF True col'_def] b(3) "1.prems"(3) by simp
    then show ?thesis by (simp add: placeColumns_step [OF True] col'_def)
  next
    case False
    then show ?thesis using "1.prems"(1) by (simp add: placeColumns_stop)
  qed
qed

lemma placeColumns_keeps:
  "placedAt sz m0 r c st \<Longrightarrow> r < sz \<Longrightarrow> c < sz \<Longrightarrow> col < int sz \<Longrightarrow> binaryString bits \<Longrightarrow>
     placedAt sz m0 r c (placeColumns bits sz col upward st)"
proof (induct bits sz col upward st rule: placeColumns.induct)
  case (1 bits sz col upward st)
  show ?case
  proof (cases "1 \<le> col")
    case True
    define col' where "col' = (if col = 6 then 5 else col)"
    have b: "1 \<le> nat col'" "nat col' < sz" "col' - 2 < int sz"
      using True "1.prems"(4) by (auto simp: col'_def)
    have "placedAt sz m0 r c (placeColumnPair bits sz (nat col') upward st)"
      using "1.prems"(1-3) b(1,2) "1.prems"(5) by (rule placeColumnPair_keeps)
    then have "placedAt sz m0 r c (placeColumns bits sz (col' - 2) (\<not> upward)
          (placeColumnPair bits sz (nat col') upward st))"
      using "1.hyps" [OF True col'_def] b(3) "1.prems"(2,3,5) by simp
    then show ?thesis by (simp add: placeColumns_step [OF True] col'_def)
  next
    case False
    then show ?thesis using "1.prems"(1) by (simp add: placeColumns_stop)
  qed
qed

lemma placeColumns_covers:
  "placeInv sz m0 st \<Longrightarrow> r < sz \<Longrightarrow> col < int sz \<Longrightarrow> binaryString bits \<Longrightarrow>
   (col < 6 \<and> odd col) \<or> (6 \<le> col \<and> even col) \<Longrightarrow> int cc \<le> col \<Longrightarrow> cc \<noteq> 6 \<Longrightarrow>
     placedAt sz m0 r cc (placeColumns bits sz col upward st)"
proof (induct bits sz col upward st rule: placeColumns.induct)
  case (1 bits sz col upward st)
  have pos: "1 \<le> col" using "1.prems"(5,6) by presburger
  define col' where "col' = (if col = 6 then 5 else col)"
  have b: "1 \<le> nat col'" "nat col' < sz" "col' - 2 < int sz"
    using pos "1.prems"(3) by (auto simp: col'_def)
  have cc: "cc < sz" using "1.prems"(3,6) by simp
  let ?st' = "placeColumnPair bits sz (nat col') upward st"
  have unf: "placeColumns bits sz col upward st = placeColumns bits sz (col' - 2) (\<not> upward) ?st'"
    by (simp add: placeColumns_step [OF pos] col'_def)
  have inv': "placeInv sz m0 ?st'"
    using "1.prems"(1) b(1,2) "1.prems"(4) by (rule placeColumnPair_inv)
  show ?case
  proof (cases "cc = nat col' \<or> cc = nat col' - 1")
    case True
    have "placedAt sz m0 r cc ?st'"
      using "1.prems"(1,2) b(1,2) "1.prems"(4) True by (rule placeColumnPair_covers)
    then show ?thesis
      unfolding unf using "1.prems"(2) cc b(3) "1.prems"(4) by (rule placeColumns_keeps)
  next
    case False
    have le: "int cc \<le> col' - 2"
      using False "1.prems"(6,7) pos by (auto simp: col'_def split: if_splits)
    have par: "(col' - 2 < 6 \<and> odd (col' - 2)) \<or> (6 \<le> col' - 2 \<and> even (col' - 2))"
      using "1.prems"(5) by (auto simp: col'_def)
    show ?thesis
      unfolding unf
      using "1.hyps" [OF pos col'_def] inv' "1.prems"(2) b(3) "1.prems"(4) par le "1.prems"(7)
      by simp
  qed
qed

lemma toBinary_binary: "binaryString (toBinary n)"
proof (induct n rule: toBinary.induct)
  case (1 n)
  show ?case
  proof (cases "n < 2")
    case True
    then show ?thesis by (simp add: toBinary.simps [of n] binaryString_def)
  next
    case False
    with 1 have "binaryString (toBinary (n div 2))" by simp
    with False show ?thesis by (simp add: toBinary.simps [of n] binaryString_def)
  qed
qed

lemma binaryString_zeros: "binaryString (replicate n CHR ''0'')"
  unfolding binaryString_def by (induction n) simp_all

lemma padStart_binary: "binaryString s \<Longrightarrow> binaryString (padStart w s)"
  using binaryString_zeros [of "w - length s"] by (simp add: padStart_def binaryString_def)

lemma dataBits_binary: "binaryString (dataBits data)"
proof -
  have "\<forall>s \<in> set (map (\<lambda>byte. padStart 8 (toBinary byte)) data). binaryString s"
    by (simp add: padStart_binary toBinary_binary)
  then show ?thesis
    unfolding dataBits_def binaryString_def list_all_iff by auto
qed

lemma gridOK_setCell:
  assumes "gridOK sz F m" "v = 0 \<or> v = 1"
  shows "gridOK sz F (setCell r c (Some v) m)"
proof -
  from assms(1) have wf: "wfMatrix sz m" by (simp add: gridOK_def)
  have cells: "setCell r c (Some v) m ! r' ! c' = (if r' = r \<and> c' = c then Some v else m ! r' ! c')"
    if "r' < sz" "c' < sz" for r' c'
    using that wf by (simp add: nth_setCell [where sz = sz])
  show ?thesis
    unfolding gridOK_def
    using assms wfMatrix_setCell [OF wf, of r c "Some v"] cells
    by (auto simp: gridOK_def)
qed

lemma gridOK_setCell_new:
  assumes "gridOK sz F m" "v = 0 \<or> v = 1" "r < sz" "c < sz"
  shows "gridOK sz (insert (r, c) F) (setCell r c (Some v) m)"
proof -
  from assms(1) have wf: "wfMatrix sz m" by (simp add: gridOK_def)
  have "setCell r c (Some v) m ! r ! c = Some v"
    using assms(3,4) wf by (simp add: nth_setCell [where sz = sz])
  with gridOK_setCell [OF assms(1,2), of r c] show ?thesis
    by (auto simp: gridOK_def)
qed

lemma gridOK_known:
  "gridOK sz F m \<Longrightarrow> m ! r ! c \<noteq> None \<Longrightarrow> gridOK sz (insert (r, c) F) m"
  by (auto simp: gridOK_def)

lemma gridOK_cell: "gridOK sz F m \<Longrightarrow> (r, c) \<in> F \<Longrightarrow> r < sz \<Longrightarrow> c < sz \<Longrightarrow> m ! r ! c \<noteq> None"
  by (auto simp: gridOK_def)

lemma gridOK_empty: "gridOK sz {} (replicate sz (replicate sz None))"
  by (simp add: gridOK_def wfMatrix_replicate)

lemma finderCell_ok: "gridOK sz F m \<Longrightarrow> gridOK sz F (finderCell sz row col r c m)"
  by (simp add: finderCell_def Let_def gridOK_setCell)

lemma finderCell_new:
  assumes "gridOK sz F m" "0 \<le> row + r" "row + r < int sz" "0 \<le> col + c" "col + c < int sz"
  shows "gridOK sz (insert (nat (row + r), nat (col + c)) F) (finderCell sz row col r c m)"
proof -
  have "nat (row + r) < sz" "nat (col + c) < sz" using assms(2-) by simp_all
  then show ?thesis
    using assms by (simp add: finderCell_def Let_def gridOK_setCell_new)
qed

lemma drawFinder_ok: "gridOK sz F m \<Longrightarrow> gridOK sz F (drawFinder sz row col m)"
  unfolding drawFinder_def
  by (intro foldl_preserve [where P = "gridOK sz F"] finderCell_ok)

lemma drawFinder_new:
  assumes "gridOK sz F m" "r \<in> set [-1..7]" "c \<in> set [-1..7]"
    "0 \<le> row + r" "row + r < int sz" "0 \<le> col + c" "col + c < int sz"
  shows "gridOK sz (insert (nat (row + r), nat (col + c)) F) (drawFinder sz row col m)"
  unfolding drawFinder_def
proof (rule foldl_establish [where P = "gridOK sz F" and ?x0.0 = r])
  fix s x assume "gridOK sz F s"
  then show "gridOK sz F (foldl (\<lambda>m c. finderCell sz row col x c m) s [-1..7])"
    by (intro foldl_preserve [where P = "gridOK sz F"] finderCell_ok)
next
  fix s x assume "gridOK sz (insert (nat (row + r), nat (col + c)) F) s"
  then show "gridOK sz (insert (nat (row + r), nat (col + c)) F)
       (foldl (\<lambda>m c. finderCell sz row col x c m) s [-1..7])"
    by (intro foldl_preserve [where P = "gridOK sz (insert (nat (row + r), nat (col + c)) F)"]
          finderCell_ok)
next
  fix s assume s: "gridOK sz F s"
  show "gridOK sz (insert (nat (row + r), nat (col + c)) F)
       (foldl (\<lambda>m c. finderCell sz row col r c m) s [-1..7])"
  proof (rule foldl_establish [where P = "gridOK sz F" and ?x0.0 = c])
    fix t assume "gridOK sz F t"
    then show "gridOK sz (insert (nat (row + r), nat (col + c)) F) (finderCell sz row col r c t)"
      using assms(4-) by (rule finderCell_new)
  next
    show "c \<in> set [-1..7]" by (rule assms(3))
  qed (simp_all add: s finderCell_ok)
next
  show "r \<in> set [-1..7]" by (rule assms(2))
qed (rule assms(1))

lemma timingStep_ok: "gridOK sz F m \<Longrightarrow> gridOK sz F (timingStep i m)"
  by (simp add: timingStep_def Let_def gridOK_setCell)

lemma timingStep_new:
  assumes "gridOK sz F m" "i < sz" "6 < sz"
  shows "gridOK sz (insert (i, 6) F) (timingStep i m)"
proof -
  define m1 where "m1 = (if m ! 6 ! i = None then setCell 6 i (Some (if i mod 2 = 0 then 1 else 0)) m else m)"
  have m1: "gridOK sz F m1" using assms(1) by (simp add: m1_def gridOK_setCell)
  have "timingStep i m =
        (if m1 ! i ! 6 = None then setCell i 6 (Some (if i mod 2 = 0 then 1 else 0)) m1 else m1)"
    by (simp add: timingStep_def m1_def Let_def)
  then show ?thesis
    using m1 assms(2,3) by (auto simp: gridOK_setCell_new intro: gridOK_known)
qed

lemma drawTiming_ok: "gridOK sz F m \<Longrightarrow> gridOK sz F (drawTiming sz m)"
  unfolding drawTiming_def
  by (intro foldl_preserve [where P = "gridOK sz F"] timingStep_ok)

lemma drawTiming_new:
  assumes "gridOK sz F m" "8 \<le> i" "i < sz - 8"
  shows "gridOK sz (insert (i, 6) F) (drawTiming sz m)"
  unfolding drawTiming_def
proof (rule foldl_establish [where P = "gridOK sz F" and ?x0.0 = i])
  fix s assume "gridOK sz F s"
  then show "gridOK sz (insert (i, 6) F) (timingStep i s)"
    using assms(3) by (intro timingStep_new) simp_all
qed (simp_all add: assms timingStep_ok)

lemma alignmentCell_ok: "gridOK sz F m \<Longrightarrow> gridOK sz F (alignmentCell row col r c m)"
  by (simp add: alignmentCell_def Let_def gridOK_setCell)

lemma drawAlignment_ok: "gridOK sz F m \<Longrightarrow> gridOK sz F (drawAlignment row col m)"
  unfolding drawAlignment_def
  by (auto intro!: foldl_preserve [where P = "gridOK sz F"] alignmentCell_ok)

lemma drawAlignments_ok: "gridOK sz F m \<Longrightarrow> gridOK sz F (drawAlignments ver m)"
  unfolding drawAlignments_def
  by (auto intro!: foldl_preserve [where P = "gridOK sz F"] drawAlignment_ok split: option.splits)

lemma reserveStep_ok: "gridOK sz F m \<Longrightarrow> gridOK sz F (reserveStep sz i m)"
  by (simp add: reserveStep_def Let_def gridOK_setCell)

lemma reserveFormat_ok: "gridOK sz F m \<Longrightarrow> gridOK sz F (reserveFormat sz m)"
  unfolding reserveFormat_def Let_def
  by (auto intro!: foldl_preserve [where P = "gridOK sz F"] reserveStep_ok gridOK_setCell)

lemma createMatrix_snd: "snd (createMatrix ver) = ver * 4 + 17"
  by (simp add: createMatrix_def Let_def)

lemma createMatrix_chain:
  assumes "sz = ver * 4 + 17" "gridOK sz F (drawTiming sz m3)"
  shows "gridOK sz F (reserveFormat sz (drawAlignments ver (setCell (sz - 8) 8 (Some 1) (drawTiming sz m3))))"
  using assms(2) by (intro reserveFormat_ok drawAlignments_ok gridOK_setCell) simp_all

lemma createMatrix_col6_ok:
  assumes "sz = ver * 4 + 17" "r < sz"
  shows "gridOK sz {(r, 6)} (fst (createMatrix ver))"
proof -
  define m0 :: matrix where "m0 = replicate sz (replicate sz None)"
  define m1 where "m1 = drawFinder sz 0 0 m0"
  define m2 where "m2 = drawFinder sz 0 (int sz - 7) m1"
  define m3 where "m3 = drawFinder sz (int sz - 7) 0 m2"
  have cm: "fst (createMatrix ver) =
      reserveFormat sz (drawAlignments ver (setCell (sz - 8) 8 (Some 1) (drawTiming sz m3)))"
    by (simp add: createMatrix_def Let_def assms(1) m0_def m1_def m2_def m3_def)
  have g0: "gridOK sz {} m0" unfolding m0_def by (rule gridOK_empty)
  have "gridOK sz {(r, 6)} (drawTiming sz m3)"
  proof -
    consider (top) "r \<le> 7" | (mid) "8 \<le> r" "r < sz - 8" | (bottom) "sz - 8 \<le> r"
      by linarith
    then show ?thesis
    proof cases
      case top
      have "gridOK sz (insert (nat (0 + int r), nat (0 + 6)) {}) m1"
        unfolding m1_def using g0 top assms by (intro drawFinder_new) simp_all
      then have "gridOK sz {(r, 6)} m1" by simp
      then show ?thesis
        unfolding m2_def m3_def by (intro drawTiming_ok drawFinder_ok)
    next
      case mid
      have "gridOK sz {} m3"
        unfolding m1_def m2_def m3_def using g0 by (intro drawFinder_ok)
      then show ?thesis using mid by (rule drawTiming_new)
    next
      case bottom
      have g2: "gridOK sz {} m2"
        unfolding m1_def m2_def using g0 by (intro drawFinder_ok)
      have "gridOK sz (insert (nat (int sz - 7 + (int r - (int sz - 7))), nat (0 + 6)) {}) m3"
        unfolding m3_def using g2 bottom assms by (intro drawFinder_new) simp_all
      then have "gridOK sz {(r, 6)} m3" by simp
      then show ?thesis by (rule drawTiming_ok)
    qed
  qed
  then show ?thesis unfolding cm using assms(1) by (rule createMatrix_chain [rotated])
qed

lemma createMatrix_col6:
  assumes "r < ver * 4 + 17"
  shows "fst (createMatrix ver) ! r ! 6 \<noteq> None"
  using createMatrix_col6_ok [OF refl assms] assms
  by (intro gridOK_cell [where F = "{(r, 6)}" and sz = "ver * 4 + 17"]) simp_all

lemma createMatrix_wf: "wfMatrix (ver * 4 + 17) (fst (createMatrix ver))"
  using createMatrix_col6_ok [of "ver * 4 + 17" ver 0] by (simp add: gridOK_def)

lemma createMatrix_bits:
  assumes "r < ver * 4 + 17" "c < ver * 4 + 17"
  shows "fst (createMatrix ver) ! r ! c = None \<or> fst (createMatrix ver) ! r ! c = Some 0 \<or>
         fst (createMatrix ver) ! r ! c = Some 1"
  using createMatrix_col6_ok [of "ver * 4 + 17" ver 0] assms by (simp add: gridOK_def)

lemma placeInv_init: "wfMatrix sz m0 \<Longrightarrow> placeInv sz m0 (m0, 0, [])"
  by (simp add: placeInv_def)

text \<open>
  Claim C4.  For every version 1 to 10 and every codeword stream, \<open>placeData\<close> on the grid
  of \<open>createMatrix\<close> assigns each unset cell exactly once (the trace of assignments has
  no repetition and is the set of unset cells), leaves no cell unset (every cell is 0 or 1
  afterwards), and leaves the cells that \<open>createMatrix\<close> set as they were.
\<close>

theorem placeData_fills_each_unset_cell_once:
  assumes "1 \<le> ver" "ver \<le> 10"
    and "sz = ver * 4 + 17" "m0 = fst (createMatrix ver)"
    and "placeData m0 sz data = (m', bitIdx, written)"
  shows "wfMatrix sz m' \<and>
         distinct written \<and>
         set written = {(r, c). r < sz \<and> c < sz \<and> m0 ! r ! c = None} \<and>
         bitIdx = length written \<and>
         (\<forall>r c. r < sz \<and> c < sz \<longrightarrow> m' ! r ! c = Some 0 \<or> m' ! r ! c = Some 1) \<and>
         (\<forall>r c. r < sz \<and> c < sz \<and> m0 ! r ! c \<noteq> None \<longrightarrow> m' ! r ! c = m0 ! r ! c)"
proof -
  have wf0: "wfMatrix sz m0" unfolding assms(3,4) by (rule createMatrix_wf)
  have col: "int sz - 1 < int sz" "6 \<le> int sz - 1" "even (int sz - 1)"
    by (simp_all add: assms(3))
  have fin: "placeData m0 sz data = placeColumns (dataBits data) sz (int sz - 1) True (m0, 0, [])"
    by (simp add: placeData_def)
  have "placeInv sz m0 (placeColumns (dataBits data) sz (int sz - 1) True (m0, 0, []))"
    using placeInv_init [OF wf0] col(1) dataBits_binary by (rule placeColumns_inv)
  then have inv: "placeInv sz m0 (m', bitIdx, written)"
    by (simp add: fin [symmetric] assms(5))
  then have wf: "wfMatrix sz m'" and dist: "distinct written"
    and idx: "bitIdx = length written"
    and wr: "\<And>r c. (r, c) \<in> set written \<Longrightarrow>
           r < sz \<and> c < sz \<and> m0 ! r ! c = None \<and> (m' ! r ! c = Some 0 \<or> m' ! r ! c = Some 1)"
    and fixed: "\<And>r c. r < sz \<Longrightarrow> c < sz \<Longrightarrow> m0 ! r ! c \<noteq> None \<Longrightarrow> m' ! r ! c = m0 ! r ! c"
    and unset: "\<And>r c. r < sz \<Longrightarrow> c < sz \<Longrightarrow> m0 ! r ! c = None \<Longrightarrow> (r, c) \<notin> set written \<Longrightarrow>
           m' ! r ! c = None"
    by (simp_all add: placeInv_def)
  have filled: "m' ! r ! c \<noteq> None" if "r < sz" "c < sz" for r c
  proof (cases "c = 6")
    case True
    have "m0 ! r ! 6 \<noteq> None"
      using that(1) unfolding assms(3,4) by (rule createMatrix_col6)
    with fixed [OF that(1), of 6] that(2) True show ?thesis by simp
  next
    case False
    have "placedAt sz m0 r c (placeColumns (dataBits data) sz (int sz - 1) True (m0, 0, []))"
      using placeInv_init [OF wf0] that(1) col(1) dataBits_binary
    proof (rule placeColumns_covers)
      show "(int sz - 1 < 6 \<and> odd (int sz - 1)) \<or> (6 \<le> int sz - 1 \<and> even (int sz - 1))"
        using col by simp
      show "int c \<le> int sz - 1" using that(2) by simp
      show "c \<noteq> 6" by (rule False)
    qed
    then show ?thesis by (simp add: placedAt_def fin [symmetric] assms(5))
  qed
  have written_eq: "set written = {(r, c). r < sz \<and> c < sz \<and> m0 ! r ! c = None}"
  proof (intro set_eqI iffI)
    fix p assume p: "p \<in> set written"
    obtain r c where rc: "p = (r, c)" by (cases p)
    from p wr [of r c] show "p \<in> {(r, c). r < sz \<and> c < sz \<and> m0 ! r ! c = None}"
      unfolding rc by simp
  next
    fix p assume "p \<in> {(r, c). r < sz \<and> c < sz \<and> m0 ! r ! c = None}"
    then obtain r c where p: "p = (r, c)" "r < sz" "c < sz" "m0 ! r ! c = None" by auto
    show "p \<in> set written"
      using unset [OF p(2-4)] filled [OF p(2,3)] p(1) by auto
  qed
  have bits: "m' ! r ! c = Some 0 \<or> m' ! r ! c = Some 1" if "r < sz" "c < sz" for r c
  proof (cases "m0 ! r ! c = None")
    case True
    with that have "(r, c) \<in> set written" by (simp add: written_eq)
    from wr [OF this] show ?thesis by simp
  next
    case False
    have "m0 ! r ! c = None \<or> m0 ! r ! c = Some 0 \<or> m0 ! r ! c = Some 1"
      using that unfolding assms(3,4) by (rule createMatrix_bits)
    with False fixed [OF that False] show ?thesis by auto
  qed
  show ?thesis
    using wf dist written_eq idx bits fixed by blast
qed

theorem placeData_fills_each_unset_cell_once_witness:
  "(1::nat) \<le> 1 \<and> (1::nat) \<le> 10 \<and>
   (let m0 = fst (createMatrix 1); st = placeData m0 21 [255]
    in wfMatrix 21 (fst st) \<and> distinct (snd (snd st)) \<and>
       set (snd (snd st)) = {(r, c). r < 21 \<and> c < 21 \<and> m0 ! r ! c = None} \<and>
       fst (snd st) = length (snd (snd st)) \<and>
       (fst st ! 20 ! 20 = Some 0 \<or> fst st ! 20 ! 20 = Some 1) \<and>
       fst st ! 0 ! 6 = m0 ! 0 ! 6)"
proof -
  let ?m0 = "fst (createMatrix 1)"
  let ?st = "placeData ?m0 21 [255]"
  have "?st = (fst ?st, fst (snd ?st), snd (snd ?st))" by simp
  from placeData_fills_each_unset_cell_once [OF _ _ _ refl this]
  show ?thesis using createMatrix_col6 [of 0 1] by (simp add: Let_def)
qed

subsection \<open>URI builder\<close>

lemma pushEncoded_render:
  "pushEncoded key v parts =
     (case renderField (key, PercentEncoded, nonEmpty v) of
        Inl e \<Rightarrow> Inl e
      | Inr ps \<Rightarrow> Inr (parts @ ps))"
  by (simp add: pushEncoded_def renderField_def nonEmpty_def split: option.splits sum.splits)

lemma joinAmp_prefix: "joinAmp ((a @ b) # ps) = a @ joinAmp (b # ps)"
  by (cases ps) simp_all

lemma str_append: "str (a @ b) = str a @ str b"
  by (simp add: str_def)

lemma head_split: "str ''upi://pay?pa='' = str ''upi://pay?'' @ str ''pa=''"
  by (simp add: str_def)

text \<open>
  Claim C6, amended.  Every emitted value is percent-encoded except the currency code, the
  numeric amount and the merchant category code, which are emitted as they are: the URI is
  the one of the specification with \<open>mc\<close> emitted verbatim.
\<close>

theorem buildUpiUri_encodes_all_but_codes:
  "buildUpiUri toFixed2 p = uriBySpec Verbatim toFixed2 p"
proof (cases "encodeURIComponent (vpa p)")
  case (Inl e)
  then show ?thesis
    by (simp add: buildUpiUri_def uriBySpec_def uriFields_def renderField_def)
next
  case pa: (Inr pa)
  show ?thesis
  proof (cases "renderField (''pn='', PercentEncoded, nonEmpty (payeeName p))")
    case (Inl e)
    then show ?thesis
      using pa
      by (simp add: buildUpiUri_def uriBySpec_def uriFields_def pushEncoded_render
            renderField_def [of "(''pa='', PercentEncoded, Some (vpa p))"])
  next
    case pn: (Inr pn)
    show ?thesis
    proof (cases "renderField (''tn='', PercentEncoded, nonEmpty (note' p))")
      case (Inl e)
      then show ?thesis
        using pa pn
        by (simp add: buildUpiUri_def uriBySpec_def uriFields_def pushEncoded_render Let_def
              renderField_def [of "(''pa='', PercentEncoded, Some (vpa p))"]
              renderField_def [of "(''am='', Verbatim, x)" for x]
              renderField_def [of "(''cu='', Verbatim, x)" for x]
            split: option.splits)
    next
      case tn: (Inr tn)
      show ?thesis
      proof (cases "renderField (''tr='', PercentEncoded, nonEmpty (txnRefId p))")
        case (Inl e)
        then show ?thesis
          using pa pn tn
          by (simp add: buildUpiUri_def uriBySpec_def uriFields_def pushEncoded_render Let_def
                nonEmpty_def [of "mcc p"]
                renderField_def [of "(''pa='', PercentEncoded, Some (vpa p))"]
                renderField_def [of "(''am='', Verbatim, x)" for x]
                renderField_def [of "(''cu='', Verbatim, x)" for x]
                renderField_def [of "(''mc='', Verbatim, x)" for x]
              split: option.splits)
      next
        case tr: (Inr tr)
        then show ?thesis
          using pa pn tn
          by (simp add: buildUpiUri_def uriBySpec_def uriFields_def pushEncoded_render Let_def
                nonEmpty_def [of "mcc p"] head_split joinAmp_prefix
                renderField_def [of "(''pa='', PercentEncoded, Some (vpa p))"]
                renderField_def [of "(''am='', Verbatim, x)" for x]
                renderField_def [of "(''cu='', Verbatim, x)" for x]
                renderField_def [of "(''mc='', Verbatim, x)" for x]
              split: option.splits)
      qed
    qed
  qed
qed

lemma isUnreserved_space: "\<not> isUnreserved 32"
  by (simp add: isUnreserved_def str_def)

lemma percent_space: "percentOctets (utf8Octets 32) = [37, 50, 48]"
  by (simp add: utf8Octets_def percentOctets_def hexDigit_def)

lemma buildUpiUri_mccExample:
  "buildUpiUri (\<lambda>a. []) mccExample = Inr (str ''upi://pay?pa=a&cu=INR&mc= '')"
  by (simp add: buildUpiUri_def mccExample_def pushEncoded_def isUnreserved_a str_def)

lemma uriBySpec_mccExample:
  "uriBySpec PercentEncoded (\<lambda>a. []) mccExample = Inr (str ''upi://pay?pa=a&cu=INR&mc=%20'')"
  by (simp add: uriBySpec_def uriFields_def mccExample_def renderField_def nonEmpty_def
        isUnreserved_a isUnreserved_space percent_space str_def)

text \<open>
  Claim C6 as stated fails: for a merchant category code of one space \<open>buildUpiUri\<close> emits
  \<open>mc=\<close> followed by the space, where the percent-encoding is \<open>%20\<close>.
\<close>

theorem buildUpiUri_mcc_not_encoded:
  "buildUpiUri (\<lambda>a. []) mccExample = Inr (str ''upi://pay?pa=a&cu=INR&mc= '') \<and>
   uriBySpec PercentEncoded (\<lambda>a. []) mccExample = Inr (str ''upi://pay?pa=a&cu=INR&mc=%20'') \<and>
   buildUpiUri (\<lambda>a. []) mccExample \<noteq> uriBySpec PercentEncoded (\<lambda>a. []) mccExample"
  by (simp add: buildUpiUri_mccExample uriBySpec_mccExample str_def)

theorem buildUpiUri_encodes_all_but_codes_witness:
  "uriBySpec Verbatim (\<lambda>a. []) mccExample = Inr (str ''upi://pay?pa=a&cu=INR&mc= '')"
  using buildUpiUri_encodes_all_but_codes [of "\<lambda>a. []" mccExample]
  by (simp add: buildUpiUri_mccExample)

subsection \<open>UPI ID validation\<close>

lemma nullable_lang: "nullable r \<longleftrightarrow> [] \<in> lang r"
  by (induction r) auto

lemma deriv_lang: "w \<in> lang (deriv c r) \<longleftrightarrow> c # w \<in> lang r"
proof (induction r arbitrary: w)
  case (Seq r s)
  have "c # w \<in> lang (Seq r s) \<longleftrightarrow>
        ([] \<in> lang r \<and> c # w \<in> lang s) \<or> (\<exists>u v. w = u @ v \<and> c # u \<in> lang r \<and> v \<in> lang s)"
    by (auto simp: Cons_eq_append_conv)
  then show ?case
    using Seq by (auto simp: nullable_lang)
next
  case (RepCls rs lo hi)
  show ?case by (cases hi) (auto simp: le_diff_conv)
qed auto

lemma matches_lang: "matches r w \<longleftrightarrow> w \<in> lang r"
  by (induction w arbitrary: r) (simp_all add: nullable_lang deriv_lang)

lemma inClass_alnum: "inClass c [(97, 122), (65, 90), (48, 57)] = isAlnum c"
  by (auto simp: inClass_def isAlnum_def isLetter_def isDigit_def)

lemma inClass_letter: "inClass c [(97, 122), (65, 90)] = isLetter c"
  by (auto simp: inClass_def isLetter_def)

lemma inClass_user:
  "inClass c [(97, 122), (65, 90), (48, 57), (46, 46), (95, 95), (45, 45)] = isUserChar c"
  by (auto simp: inClass_def isUserChar_def isLetter_def isDigit_def)

lemma inClass_at: "inClass c [(64, 64)] = (c = 64)"
  by (auto simp: inClass_def)

lemma lang_upiRegex:
  "w \<in> lang upiRegex \<longleftrightarrow>
     (\<exists>a u h t. w = a # u @ 64 # h # t \<and> isAlnum a \<and> length u \<le> 49 \<and> list_all isUserChar u \<and>
        isLetter h \<and> length t \<le> 49 \<and> list_all isAlnum t)"
proof -
  have "w \<in> lang upiRegex \<longleftrightarrow>
     (\<exists>a u h t. w = [a] @ u @ [64] @ [h] @ t \<and> isAlnum a \<and> length u \<le> 49 \<and>
        list_all isUserChar u \<and> isLetter h \<and> length t \<le> 49 \<and> list_all isAlnum t)"
    unfolding upiRegex_def lang.simps inClass_alnum inClass_letter inClass_user inClass_at
    by blast
  then show ?thesis by simp
qed

lemma not_at: "isAlnum c \<Longrightarrow> c \<noteq> 64" "isUserChar c \<Longrightarrow> c \<noteq> 64" "isLetter c \<Longrightarrow> c \<noteq> 64"
  by (auto simp: isAlnum_def isUserChar_def isLetter_def isDigit_def)

lemma upiShape_decomp:
  "upiShape w \<longleftrightarrow>
     (\<exists>a u h t. w = a # u @ 64 # h # t \<and> isAlnum a \<and> length u \<le> 49 \<and> list_all isUserChar u \<and>
        isLetter h \<and> length t \<le> 49 \<and> list_all isAlnum t)"
proof
  assume sh: "upiShape w"
  let ?l = "takeWhile (\<lambda>c. c \<noteq> 64) w"
  let ?rest = "dropWhile (\<lambda>c. c \<noteq> 64) w"
  from sh obtain a u where l: "?l = a # u" "isAlnum a" "length u \<le> 49" "list_all isUserChar u"
    by (auto simp: upiShape_def split: list.splits)
  from sh obtain h t where d: "drop (Suc (length ?l)) w = h # t" "isLetter h" "length t \<le> 49"
      "list_all isAlnum t"
    by (auto simp: upiShape_def split: list.splits)
  have w: "w = ?l @ ?rest" by simp
  have "filter (\<lambda>c. c = 64) ?l = []"
    by (simp add: filter_empty_conv) (metis set_takeWhileD)
  with sh w have "filter (\<lambda>c. c = 64) ?rest \<noteq> []"
    by (metis (no_types, lifting) upiShape_def filter_append append_Nil length_0_conv zero_neq_one)
  then have "?rest \<noteq> []" by (metis filter.simps(1))
  then obtain x rest' where r: "?rest = x # rest'" by (cases ?rest) auto
  then have "x = 64" using hd_dropWhile [of "\<lambda>c. c \<noteq> 64" w] by auto
  moreover have "drop (Suc (length ?l)) w = rest'"
  proof -
    have "drop (Suc (length ?l)) (?l @ x # rest') = rest'" by simp
    then show ?thesis using w r by metis
  qed
  ultimately have "w = a # u @ 64 # h # t" using w l(1) r d(1) by (metis append_Cons)
  then show "\<exists>a u h t. w = a # u @ 64 # h # t \<and> isAlnum a \<and> length u \<le> 49 \<and>
      list_all isUserChar u \<and> isLetter h \<and> length t \<le> 49 \<and> list_all isAlnum t"
    using l d by blast
next
  assume "\<exists>a u h t. w = a # u @ 64 # h # t \<and> isAlnum a \<and> length u \<le> 49 \<and> list_all isUserChar u \<and>
        isLetter h \<and> length t \<le> 49 \<and> list_all isAlnum t"
  then obtain a u h t where w: "w = a # u @ 64 # h # t" and p: "isAlnum a" "length u \<le> 49"
    "list_all isUserChar u" "isLetter h" "length t \<le> 49" "list_all isAlnum t" by blast
  have nu: "\<forall>c \<in> set u. c \<noteq> 64" using p(3) not_at(2) by (auto simp: list_all_iff)
  have nt: "\<forall>c \<in> set t. c \<noteq> 64" using p(6) not_at(1) by (auto simp: list_all_iff)
  have tw: "takeWhile (\<lambda>c. c \<noteq> 64) w = a # u"
    unfolding w using not_at(1) [OF p(1)] nu by (simp add: takeWhile_tail)
  have cnt: "filter (\<lambda>c. c = 64) w = [64]"
    unfolding w using not_at(1) [OF p(1)] not_at(3) [OF p(4)] nu nt
    by (simp add: filter_empty_conv)
  have dr: "drop (Suc (length (a # u))) w = h # t" unfolding w by simp
  show "upiShape w"
    unfolding upiShape_def tw dr using cnt p by simp
qed

lemma matches_upiRegex: "matches upiRegex w = upiShape w"
  by (simp add: matches_lang lang_upiRegex upiShape_decomp)

lemma upiShape_one_at: "upiShape w \<Longrightarrow> length (filter (\<lambda>c. c = 64) w) = 1"
  by (simp add: upiShape_def)

lemma upiShape_nonempty: "upiShape w \<Longrightarrow> w \<noteq> []"
  by (auto simp: upiShape_def)

lemma trim_Nil: "trim [] = []"
  by (simp add: trim_def)

lemma dropWhile_rev_stable:
  "t = [] \<or> \<not> P (hd t) \<Longrightarrow> dropWhile P (rev (dropWhile P (rev t))) = rev (dropWhile P (rev t))"
proof (induction t rule: rev_induct)
  case Nil
  then show ?case by simp
next
  case (snoc y ys)
  show ?case
  proof (cases "P y")
    case True
    have "ys = [] \<or> \<not> P (hd ys)"
      using snoc.prems True by (cases ys) auto
    then show ?thesis using snoc.IH True by simp
  next
    case False
    have "dropWhile P (ys @ [y]) = ys @ [y]"
      using snoc.prems by (cases ys) auto
    then show ?thesis using False by simp
  qed
qed

lemma trim_idem: "trim (trim s) = trim s"
proof -
  let ?t = "dropWhile isWhiteSpace s"
  have hd: "?t = [] \<or> \<not> isWhiteSpace (hd ?t)"
    using hd_dropWhile [of isWhiteSpace s] by auto
  have a: "dropWhile isWhiteSpace (trim s) = trim s"
    unfolding trim_def
    using hd by (rule dropWhile_rev_stable [where P = isWhiteSpace and t = "dropWhile isWhiteSpace s"])
  have "dropWhile isWhiteSpace (rev (trim s)) = rev (trim s)"
    by (simp add: trim_def dropWhile_idem)
  with a show ?thesis by (simp add: trim_def [of "trim s"])
qed

text \<open>
  Claim C10.  \<open>validateUpiId\<close> answers for the trimmed string: it is valid exactly when the
  trimmed string has the shape above, trimming the input first does not change the
  answer, and an invalid result carries a message that is not empty.
\<close>

theorem validateUpiId_classifies:
  "valid (validateUpiId s) = upiShape (trim s) \<and>
   valid (validateUpiId (trim s)) = valid (validateUpiId s) \<and>
   (\<not> valid (validateUpiId s) \<longrightarrow> (\<exists>msg. message (validateUpiId s) = Some msg \<and> msg \<noteq> []))"
proof -
  have v: "valid (validateUpiId x) = upiShape (trim x)" for x
    using upiShape_one_at [of "trim x"] upiShape_nonempty [of "trim x"]
    by (auto simp: validateUpiId_def Let_def matches_upiRegex trim_Nil)
  have m: "\<not> valid (validateUpiId s) \<longrightarrow> (\<exists>msg. message (validateUpiId s) = Some msg \<and> msg \<noteq> [])"
    by (simp add: validateUpiId_def Let_def str_def)
  show ?thesis using v [of s] v [of "trim s"] m by (simp add: trim_idem)
qed

lemma trim_example: "trim (str '' merchant@upi '') = str ''merchant@upi''"
  by (simp add: trim_def str_def isWhiteSpace_def)

lemma upiShape_example: "upiShape (str ''merchant@upi'')"
  by (simp add: upiShape_def str_def isAlnum_def isLetter_def isDigit_def isUserChar_def)

lemma trim_bad_example: "trim (str ''a@b@c'') = str ''a@b@c''"
  by (simp add: trim_def str_def isWhiteSpace_def)

lemma upiShape_bad_example: "\<not> upiShape (str ''a@b@c'')"
  by (simp add: upiShape_def str_def)

theorem validateUpiId_classifies_witness:
  "upiShape (trim (str '' merchant@upi '')) \<and> valid (validateUpiId (str '' merchant@upi '')) \<and>
   \<not> upiShape (trim (str ''a@b@c'')) \<and> \<not> valid (validateUpiId (str ''a@b@c'')) \<and>
   (\<exists>msg. message (validateUpiId (str ''a@b@c'')) = Some msg \<and> msg \<noteq> [])"
  using validateUpiId_classifies [of "str '' merchant@upi ''"]
    validateUpiId_classifies [of "str ''a@b@c''"]
  by (simp add: trim_example upiShape_example trim_bad_example upiShape_bad_example)

subsection \<open>Determinism of the public function\<close>

lemma ascii_append: "ascii (a @ b) = (ascii a \<and> ascii b)"
  by (simp add: ascii_def)

lemma ascii_Nil: "ascii []"
  by (simp add: ascii_def)

lemma ascii_Cons: "ascii (c # s) = (c < 128 \<and> ascii s)"
  by (simp add: ascii_def)

lemma ascii_toDecimal: "ascii (toDecimal n)"
proof (induct n rule: toDecimal.induct)
  case (1 n)
  show ?case
  proof (cases "n < 10")
    case True
    then show ?thesis by (simp add: toDecimal.simps [of n] ascii_def)
  next
    case False
    with 1 have "ascii (toDecimal (n div 10))" by simp
    moreover have "48 + n mod 10 < 128" by arith
    ultimately show ?thesis using False by (simp add: toDecimal.simps [of n] ascii_def)
  qed
qed

lemma ascii_str: "list_all (\<lambda>ch. (of_char ch :: nat) < 128) s \<Longrightarrow> ascii (str s)"
  by (simp add: ascii_def str_def list_all_iff)

lemma ascii_svgCell: "ascii paths \<Longrightarrow> ascii (svgCell matrix moduleSize quietZone r c paths)"
  by (simp add: svgCell_def Let_def ascii_append ascii_toDecimal ascii_str)

lemma ascii_qrToSvg: "ascii (qrToSvg matrix moduleSize quietZone)"
proof -
  have "ascii (foldl (\<lambda>paths r. foldl (\<lambda>paths c. svgCell matrix moduleSize quietZone r c paths)
                                        paths [0..<length matrix]) [] [0..<length matrix])"
    by (intro foldl_preserve [where P = ascii] ascii_svgCell ascii_Nil)
  then show ?thesis
    by (simp add: qrToSvg_def Let_def ascii_append ascii_toDecimal ascii_str ascii_Cons)
qed

lemma btoa_ascii: "ascii s \<Longrightarrow> btoa s = Inr (base64 s)"
proof -
  assume "ascii s"
  then have "\<not> list_ex (\<lambda>c. 255 < c) s"
    by (auto simp: ascii_def list_all_iff list_ex_iff)
  then show ?thesis by (simp add: btoa_def)
qed

lemma utf8Bytes_ascii: "ascii s \<Longrightarrow> utf8Bytes s = s"
  by (induction s) (simp_all add: ascii_def utf8Octets_def)

text \<open>
  The result does not depend on the environment: the SVG text is ASCII, on which \<open>btoa\<close>
  and the \<open>Buffer\<close> path agree.
\<close>

lemma generateUpiQrCode_same_in_every_environment:
  "generateUpiQrCode toFixed2 hasWindow params = generateUpiQrCode toFixed2 hasWindow' params"
proof -
  have "generateUpiQrCode toFixed2 w params = generateUpiQrCode toFixed2 False params" for w
    by (cases w)
       (simp_all add: generateUpiQrCode_def Let_def btoa_ascii utf8Bytes_ascii ascii_qrToSvg
          split: sum.splits)
  from this [of hasWindow] this [of hasWindow'] show ?thesis by simp
qed

subsection \<open>Module state across calls\<close>

text \<open>Running the primitive operations.\<close>

lemma run_readExp [simp]: "run_state (readExp i) s = (expTable s i, s)"
  by (simp add: readExp_def)

lemma run_readLog [simp]: "run_state (readLog i) s = (logTable s i, s)"
  by (simp add: readLog_def)

lemma run_writeExp [simp]: "run_state (writeExp i v) s = ((), s\<lparr>expTable := (expTable s)(i \<mapsto> v)\<rparr>)"
  by (simp add: writeExp_def)

lemma run_writeLog [simp]: "run_state (writeLog i v) s = ((), s\<lparr>logTable := (logTable s)(i \<mapsto> v)\<rparr>)"
  by (simp add: writeLog_def)

lemma run_readVersionTable [simp]: "run_state readVersionTable s = (versionTable s, s)"
  by (simp add: readVersionTable_def)

lemma run_readAlignment [simp]: "run_state (readAlignment ver) s = (alignmentTable s ver, s)"
  by (simp add: readAlignment_def)

text \<open>Read-only operations compose, also under a loop.\<close>

lemma readOnly_run: "readOnly m \<Longrightarrow> run_state m s = (fst (run_state m s), s)"
  by (metis readOnly_def prod.collapse)

lemma readOnly_return [intro!, simp]: "readOnly (State_Monad.return x)"
  by (simp add: readOnly_def)

lemma readOnly_bind [intro!]:
  assumes "readOnly m" "\<And>x. readOnly (f x)"
  shows "readOnly (State_Monad.bind m f)"
proof -
  have "snd (run_state (State_Monad.bind m f) s) = s" for s
  proof -
    obtain a where a: "run_state m s = (a, s)"
      using readOnly_run [OF assms(1), of s] by blast
    then show ?thesis using assms(2) [of a] by (simp add: readOnly_def)
  qed
  then show ?thesis by (simp add: readOnly_def)
qed

lemma readOnly_reads [intro!, simp]:
  "readOnly (readExp i)" "readOnly (readLog i)" "readOnly readVersionTable"
  "readOnly (readAlignment ver)"
  by (simp_all add: readOnly_def)

lemma readOnly_foldM [intro!]:
  assumes "\<And>b x. readOnly (f b x)"
  shows "readOnly (foldM f b xs)"
  by (induction xs arbitrary: b) (auto intro: assms)

lemma foldM_pure:
  assumes "\<And>b x. x \<in> set xs \<Longrightarrow> run_state (f b x) s = (g b x, s)"
  shows "run_state (foldM f b xs) s = (foldl g b xs, s)"
  using assms by (induction xs arbitrary: b) simp_all

text \<open>
  Every function on the path of \<open>generateUpiQrCode\<close> is read-only, from any state.
\<close>

lemma readOnly_gfMulM [intro!, simp]: "readOnly (gfMulM a b)"
  unfolding gfMulM_def by (auto split: option.splits)

lemma readOnly_gfMulExpM [intro!, simp]: "readOnly (gfMulExpM p i)"
  unfolding gfMulExpM_def by (auto split: option.splits)

lemma readOnly_rsGenPolyM [intro!, simp]: "readOnly (rsGenPolyM ecLen)"
  unfolding rsGenPolyM_def rsGenPoly_stepM_def by auto

lemma readOnly_rsEncodeM [intro!, simp]: "readOnly (rsEncodeM data ecLen)"
  unfolding rsEncodeM_def by (auto simp: Let_def)

lemma readOnly_splitBlocksM [intro!, simp]: "readOnly (splitBlocksM codewords offset blks)"
  by (induction codewords offset blks rule: splitBlocksM.induct) auto

lemma readOnly_encodeDataByteM [intro!, simp]: "readOnly (encodeDataByteM data ver blks)"
  unfolding encodeDataByteM_def by (auto simp: Let_def)

lemma readOnly_pickVersionM [intro!, simp]: "readOnly (pickVersionM dataLen)"
  unfolding pickVersionM_def by (auto split: option.splits prod.splits)

lemma readOnly_drawAlignmentsM [intro!, simp]: "readOnly (drawAlignmentsM ver m)"
  unfolding drawAlignmentsM_def by (auto split: option.splits)

lemma readOnly_createMatrixM [intro!, simp]: "readOnly (createMatrixM ver)"
  unfolding createMatrixM_def by (auto simp: Let_def)

lemma readOnly_applyMaskM [intro!, simp]: "readOnly (applyMaskM m sz)"
  unfolding applyMaskM_def by auto

lemma readOnly_generateQrMatrixM [intro!, simp]: "readOnly (generateQrMatrixM data)"
  unfolding generateQrMatrixM_def by (auto split: sum.splits)

lemma readOnly_generateUpiQrCodeM [intro!, simp]:
  "readOnly (generateUpiQrCodeM toFixed2 hasWindow params)"
  unfolding generateUpiQrCodeM_def by (auto simp: Let_def split: sum.splits)

text \<open>
  The initialiser leaves in the state the tables that the functions above the module
  state were defined with.
\<close>

lemma initLoopM_tables:
  "256 - i = n \<Longrightarrow>
   snd (run_state (foldM (\<lambda>x i. do { _ \<leftarrow> writeExp i x; _ \<leftarrow> writeLog x i;
                                   State_Monad.return (gfNext x) }) x [i..<256]) s) =
     s\<lparr>expTable := fst (initGaloisField_loop i x (expTable s, logTable s)),
       logTable := snd (initGaloisField_loop i x (expTable s, logTable s))\<rparr>"
proof (induction n arbitrary: i x s)
  case 0
  then have "\<not> i < 256" by simp
  then show ?case by (simp add: loop_exit)
next
  case (Suc n)
  let ?body = "\<lambda>x i. do { _ \<leftarrow> writeExp i x; _ \<leftarrow> writeLog x i; State_Monad.return (gfNext x) }"
  define s' where "s' = s\<lparr>expTable := (expTable s)(i \<mapsto> x), logTable := (logTable s)(x \<mapsto> i)\<rparr>"
  from Suc.prems have lt: "i < 256" and n: "256 - Suc i = n" by simp_all
  have upt: "[i..<256] = i # [Suc i..<256]" using lt by (simp add: upt_conv_Cons)
  have body: "run_state (?body x i) s = (gfNext x, s')"
    by (simp add: s'_def)
  have "snd (run_state (foldM ?body x [i..<256]) s) =
        snd (run_state (foldM ?body (gfNext x) [Suc i..<256]) s')"
    unfolding upt by (simp add: s'_def)
  also have "\<dots> = s'\<lparr>expTable := fst (initGaloisField_loop (Suc i) (gfNext x) (expTable s', logTable s')),
       logTable := snd (initGaloisField_loop (Suc i) (gfNext x) (expTable s', logTable s'))\<rparr>"
    by (rule Suc.IH [OF n])
  also have "\<dots> = s\<lparr>expTable := fst (initGaloisField_loop i x (expTable s, logTable s)),
       logTable := snd (initGaloisField_loop i x (expTable s, logTable s))\<rparr>"
    unfolding loop_unfold [OF lt] by (simp add: s'_def)
  finally show ?case .
qed

lemma moduleLoaded_eq:
  "moduleLoaded =
     \<lparr>expTable = EXP_TABLE, logTable = LOG_TABLE,
      versionTable = VERSION_TABLE, alignmentTable = ALIGNMENT_POSITIONS\<rparr>"
proof -
  let ?loop = "foldM (\<lambda>x i. do { _ \<leftarrow> writeExp i x; _ \<leftarrow> writeLog x i;
                                   State_Monad.return (gfNext x) }) 1 [0..<256]"
  have "snd (run_state initGaloisFieldM moduleAtLoad) = snd (run_state ?loop moduleAtLoad)"
    by (cases "run_state ?loop moduleAtLoad") (simp add: initGaloisFieldM_def)
  also have "\<dots> = moduleAtLoad\<lparr>expTable := fst (initGaloisField_loop 0 1 (Map.empty, Map.empty)),
       logTable := snd (initGaloisField_loop 0 1 (Map.empty, Map.empty))\<rparr>"
    using initLoopM_tables [of 0 256 1 moduleAtLoad] by (simp add: moduleAtLoad_def)
  finally show ?thesis
    by (simp add: moduleLoaded_def moduleAtLoad_def EXP_TABLE_def LOG_TABLE_def
          initGaloisField_def)
qed

lemma moduleLoaded_tables [simp]:
  "expTable moduleLoaded = EXP_TABLE" "logTable moduleLoaded = LOG_TABLE"
  "versionTable moduleLoaded = VERSION_TABLE" "alignmentTable moduleLoaded = ALIGNMENT_POSITIONS"
  by (simp_all add: moduleLoaded_eq)

text \<open>
  From the loaded state, each function returns what its counterpart without state returns.
\<close>

lemma run_gfMulM: "run_state (gfMulM a b) moduleLoaded = (gfMul a b, moduleLoaded)"
  by (simp add: gfMulM_def gfMul_def split: option.splits)

lemma run_gfMulExpM: "run_state (gfMulExpM p i) moduleLoaded = (gfMulExp p i, moduleLoaded)"
  by (simp add: gfMulExpM_def gfMulExp_def run_gfMulM split: option.splits)

lemma run_rsGenPoly_stepM:
  "run_state (rsGenPoly_stepM poly i) moduleLoaded = (rsGenPoly_step poly i, moduleLoaded)"
  unfolding rsGenPoly_stepM_def rsGenPoly_step_def
  by (rule foldM_pure) (simp add: run_gfMulExpM)

lemma run_rsGenPolyM: "run_state (rsGenPolyM ecLen) moduleLoaded = (rsGenPoly ecLen, moduleLoaded)"
  unfolding rsGenPolyM_def rsGenPoly_def
  by (rule foldM_pure) (rule run_rsGenPoly_stepM)

lemma run_rsEncodeM:
  "run_state (rsEncodeM data ecLen) moduleLoaded = (rsEncode data ecLen, moduleLoaded)"
proof -
  define innerM where "innerM = (\<lambda>gen coef i (msg :: nat list) j. do {
        g \<leftarrow> gfMulM (gen ! j) coef;
        State_Monad.return (msg[i + j := xorAssign (msg ! (i + j)) g]) })"
  define inner where "inner = (\<lambda>gen coef i (msg :: nat list) j.
        msg[i + j := xorAssign (msg ! (i + j)) (gfMul (gen ! j) coef)])"
  define outerM where "outerM = (\<lambda>gen (msg :: nat list) i.
        let coef = msg ! i
        in if coef \<noteq> 0 then foldM (innerM gen coef i) msg [0..<length gen]
           else State_Monad.return msg)"
  define outer where "outer = (\<lambda>gen (msg :: nat list) i.
        let coef = msg ! i
        in if coef \<noteq> 0 then foldl (inner gen coef i) msg [0..<length gen] else msg)"
  have i: "run_state (foldM (innerM gen coef i) msg js) moduleLoaded =
           (foldl (inner gen coef i) msg js, moduleLoaded)" for gen coef i msg js
    by (rule foldM_pure) (simp add: innerM_def inner_def run_gfMulM)
  have o: "run_state (foldM (outerM gen) msg0 is) moduleLoaded =
           (foldl (outer gen) msg0 is, moduleLoaded)" for gen msg0 "is"
    by (rule foldM_pure) (simp add: outerM_def outer_def Let_def i)
  have m: "rsEncodeM data ecLen = do {
             gen \<leftarrow> rsGenPolyM ecLen;
             msg \<leftarrow> foldM (outerM gen) (data @ replicate ecLen 0) [0..<length data];
             State_Monad.return (drop (length data) msg) }"
    unfolding rsEncodeM_def outerM_def innerM_def by (rule refl)
  have p: "rsEncode data ecLen =
           drop (length data)
             (foldl (outer (rsGenPoly ecLen)) (data @ replicate ecLen 0) [0..<length data])"
    unfolding rsEncode_def outer_def inner_def Let_def by (rule refl)
  show ?thesis
    unfolding m p by (simp add: run_rsGenPolyM o)
qed

lemma run_splitBlocksM:
  "run_state (splitBlocksM codewords offset blks) moduleLoaded =
     (splitBlocks codewords offset blks, moduleLoaded)"
  by (induction codewords offset blks rule: splitBlocksM.induct)
     (simp_all add: run_rsEncodeM Let_def split: prod.splits)

lemma run_encodeDataByteM:
  "run_state (encodeDataByteM data ver blks) moduleLoaded =
     (encodeDataByte data ver blks, moduleLoaded)"
  by (auto simp: encodeDataByteM_def encodeDataByte_def Let_def run_splitBlocksM)

lemma run_pickVersionM:
  "run_state (pickVersionM dataLen) moduleLoaded = (pickVersion dataLen, moduleLoaded)"
  by (simp add: pickVersionM_def pickVersion_def split: option.splits prod.splits)

lemma run_drawAlignmentsM:
  "run_state (drawAlignmentsM ver m) moduleLoaded = (drawAlignments ver m, moduleLoaded)"
  by (simp add: drawAlignmentsM_def drawAlignments_def split: option.splits)

lemma run_createMatrixM:
  "run_state (createMatrixM ver) moduleLoaded = (createMatrix ver, moduleLoaded)"
  by (simp add: createMatrixM_def createMatrix_def Let_def run_drawAlignmentsM)

lemma run_applyMaskM:
  "run_state (applyMaskM m sz) moduleLoaded = (applyMask m sz, moduleLoaded)"
  by (simp add: applyMaskM_def applyMask_def Let_def run_createMatrixM)

lemma run_generateQrMatrixM:
  "run_state (generateQrMatrixM data) moduleLoaded = (generateQrMatrix data, moduleLoaded)"
  by (simp add: generateQrMatrixM_def generateQrMatrix_def Let_def run_pickVersionM
        run_encodeDataByteM run_createMatrixM run_applyMaskM split: sum.splits prod.splits)

lemma run_generateUpiQrCodeM:
  "run_state (generateUpiQrCodeM toFixed2 hasWindow params) moduleLoaded =
     (generateUpiQrCode toFixed2 hasWindow params, moduleLoaded)"
  by (simp add: generateUpiQrCodeM_def generateUpiQrCode_def Let_def run_generateQrMatrixM
        split: sum.splits)

text \<open>Any sequence of calls, in any environments and with any parameters.\<close>

lemma earlier_calls_keep_state:
  "snd (run_state (State_Monad.traverse_list
          (\<lambda>call. generateUpiQrCodeM toFixed2 (fst call) (snd call)) earlier) s) = s"
proof (induction earlier arbitrary: s)
  case Nil
  then show ?case by simp
next
  case (Cons call earlier)
  obtain r where "run_state (generateUpiQrCodeM toFixed2 (fst call) (snd call)) s = (r, s)"
    using readOnly_run [OF readOnly_generateUpiQrCodeM] by blast
  moreover obtain rs where "run_state (State_Monad.traverse_list
          (\<lambda>call. generateUpiQrCodeM toFixed2 (fst call) (snd call)) earlier) s = (rs, s)"
    using Cons.IH [of s] by (metis prod.collapse)
  ultimately show ?case by simp
qed

text \<open>The initialiser does change the state: the state can tell a writer from a reader.\<close>

lemma initialiser_writes: "moduleLoaded \<noteq> moduleAtLoad"
proof
  assume "moduleLoaded = moduleAtLoad"
  then have "expTable moduleLoaded 8 = expTable moduleAtLoad 8" by simp
  then show False by (simp add: EXP_TABLE_8 moduleAtLoad_def)
qed

text \<open>
  Claim C9.  \<open>generateUpiQrCode\<close> is a pure, deterministic function of its parameter
  object.  First, from every state of the module's arrays a call returns the state as it
  found it, whatever the parameters and the environment, and whether it returns a data
  URI or throws: it mutates nothing that a later call reads.  Second, take the loaded
  module, any sequence of earlier calls, a call with \<open>params\<close>, any sequence of calls in
  between, and a second call with the same \<open>params\<close>, possibly in the other environment:
  the two calls return the same result, character for character (or throw the same
  exception), namely the value at \<open>params\<close> of the function defined without state, and the
  module state is again the loaded one.  Third, the state after the initialiser differs
  from the state before it, so a write to the tables is visible in this state.
\<close>

theorem generateUpiQrCode_pure_and_deterministic:
  "snd (run_state (generateUpiQrCodeM toFixed2 hasWindow params) s) = s \<and>
   run_state
     (do {
        _ \<leftarrow> State_Monad.traverse_list
               (\<lambda>call. generateUpiQrCodeM toFixed2 (fst call) (snd call)) earlier;
        first \<leftarrow> generateUpiQrCodeM toFixed2 hasWindow params;
        _ \<leftarrow> State_Monad.traverse_list
               (\<lambda>call. generateUpiQrCodeM toFixed2 (fst call) (snd call)) between;
        second \<leftarrow> generateUpiQrCodeM toFixed2 hasWindow' params;
        State_Monad.return (first, second)
      }) moduleLoaded =
     ((generateUpiQrCode toFixed2 hasWindow params, generateUpiQrCode toFixed2 hasWindow params),
      moduleLoaded) \<and>
   moduleLoaded \<noteq> moduleAtLoad"
proof -
  let ?calls = "State_Monad.traverse_list
                  (\<lambda>call. generateUpiQrCodeM toFixed2 (fst call) (snd call))"
  have unchanged: "snd (run_state (generateUpiQrCodeM toFixed2 hasWindow params) s) = s"
    using readOnly_generateUpiQrCodeM by (simp add: readOnly_def)
  have env: "generateUpiQrCode toFixed2 hasWindow' params =
             generateUpiQrCode toFixed2 hasWindow params"
    by (rule generateUpiQrCode_same_in_every_environment)
  obtain r1 where r1: "run_state (?calls earlier) moduleLoaded = (r1, moduleLoaded)"
    using earlier_calls_keep_state [of toFixed2 earlier moduleLoaded] by (metis prod.collapse)
  obtain r2 where r2: "run_state (?calls between) moduleLoaded = (r2, moduleLoaded)"
    using earlier_calls_keep_state [of toFixed2 between moduleLoaded] by (metis prod.collapse)
  have seq: "run_state
     (do {
        _ \<leftarrow> ?calls earlier;
        first \<leftarrow> generateUpiQrCodeM toFixed2 hasWindow params;
        _ \<leftarrow> ?calls between;
        second \<leftarrow> generateUpiQrCodeM toFixed2 hasWindow' params;
        State_Monad.return (first, second)
      }) moduleLoaded =
     ((generateUpiQrCode toFixed2 hasWindow params, generateUpiQrCode toFixed2 hasWindow params),
      moduleLoaded)"
    by (simp add: r1 r2 run_generateUpiQrCodeM env)
  from unchanged seq initialiser_writes show ?thesis by blast
qed

end
